theory Spec2Isabelle
  imports Complex_Main
begin

section \<open>JavaScript strings and values\<close>

text \<open>
  A JavaScript string is a sequence of UTF-16 code units; \<open>length\<close>, \<open>trim\<close>,
  \<open>split\<close> and the regular expressions of the source all work on code units. A code unit
  is modelled by its numeric value. \<open>js\<close> turns a literal into such a sequence.
\<close>

type_synonym jsstring = "nat list"

definition js :: "string \<Rightarrow> jsstring" where
  "js s = map of_char s"

text \<open>
  A property that may be \<open>undefined\<close> or \<open>null\<close> is an option. For a string,
  \<open>!x\<close> holds when it is absent or empty.
\<close>

definition truthy :: "jsstring option \<Rightarrow> bool" where
  "truthy x = (case x of None \<Rightarrow> False | Some s \<Rightarrow> s \<noteq> [])"

text \<open>What a template literal \<open>`${x}`\<close> prints for a value that may be undefined.\<close>

definition template :: "jsstring option \<Rightarrow> jsstring" where
  "template x = (case x of None \<Rightarrow> js ''undefined'' | Some s \<Rightarrow> s)"

definition startsWith :: "jsstring \<Rightarrow> jsstring \<Rightarrow> bool" where
  "startsWith s p = (take (length p) s = p)"

text \<open>Decimal printing of an integer, as a template literal prints a chapter number.\<close>

function show_nat :: "nat \<Rightarrow> jsstring" where
  "show_nat n = (if n < 10 then [48 + n] else show_nat (n div 10) @ [48 + n mod 10])"
  by pat_completeness auto
termination
  by (relation "measure id") auto

definition show_int :: "int \<Rightarrow> jsstring" where
  "show_int i = (if i < 0 then 45 # show_nat (nat (- i)) else show_nat (nat i))"

text \<open>
  \<open>toUpperCase\<close> on the ASCII letters; the source applies it to the format names
  \<open>pdf\<close>, \<open>docx\<close> and \<open>epub\<close> only.
\<close>

definition toUpperCase :: "jsstring \<Rightarrow> jsstring" where
  "toUpperCase s = map (\<lambda>c. if 97 \<le> c \<and> c \<le> 122 then c - 32 else c) s"

text \<open>
  White space as \<open>\s\<close> and \<open>trim\<close> see it (WhiteSpace and LineTerminator of
  ECMAScript), the line terminators that \<open>.\<close> refuses, and the digits of \<open>\d\<close>.
\<close>

definition is_space :: "nat \<Rightarrow> bool" where
  "is_space c = (c = 9 \<or> c = 10 \<or> c = 11 \<or> c = 12 \<or> c = 13 \<or> c = 32 \<or> c = 160
     \<or> c = 5760 \<or> (8192 \<le> c \<and> c \<le> 8202) \<or> c = 8232 \<or> c = 8233 \<or> c = 8239
     \<or> c = 8287 \<or> c = 12288 \<or> c = 65279)"

definition is_line_terminator :: "nat \<Rightarrow> bool" where
  "is_line_terminator c = (c = 10 \<or> c = 13 \<or> c = 8232 \<or> c = 8233)"

definition any_char :: "nat \<Rightarrow> bool" where
  "any_char c = (\<not> is_line_terminator c)"

definition is_digit :: "nat \<Rightarrow> bool" where
  "is_digit c = (48 \<le> c \<and> c \<le> 57)"

definition is_char :: "char \<Rightarrow> nat \<Rightarrow> bool" where
  "is_char a c = (c = of_char a)"

definition one_of :: "string \<Rightarrow> nat \<Rightarrow> bool" where
  "one_of as c = (c \<in> set (js as))"

definition trim :: "jsstring \<Rightarrow> jsstring" where
  "trim s = rev (dropWhile is_space (rev (dropWhile is_space s)))"


text \<open>
  Numbers: the result of a division is a finite number, an infinity or NaN. Dividing by
  zero does not raise in JavaScript, it yields \<open>Infinity\<close>, \<open>-Infinity\<close> or \<open>NaN\<close>.
  Operands here are integer counts, and the quotient is kept exact.
\<close>

datatype jsnum = Num real | PosInf | NegInf | NaN

definition js_div :: "int \<Rightarrow> int \<Rightarrow> jsnum" where
  "js_div a b =
     (if b = 0 then (if a = 0 then NaN else if 0 < a then PosInf else NegInf)
      else Num (real_of_int a / real_of_int b))"

definition js_times :: "jsnum \<Rightarrow> real \<Rightarrow> jsnum" where
  "js_times x k = (case x of Num r \<Rightarrow> Num (r * k) | other \<Rightarrow> other)"

section \<open>Regular expressions\<close>

text \<open>
  The regular expressions of the source are sequences of atoms: the anchor \<open>^\<close>, a
  character class with a quantifier \<open>{lo,hi}\<close> (greedy, or lazy when followed by
  \<open>?\<close>), the negative lookbehind \<open>(?<!c)\<close> and lookahead \<open>(?!c)\<close> on one
  character, and a capturing group around an atom. No flag but \<open>g\<close> is used, so
  \<open>^\<close> matches at the start of the string only.

  A position in the subject is the character before it (none at the start) and the rest
  of the string from it. \<open>rmatch\<close> is the backtracking matcher at one position: a
  quantified class tries its repetition counts in order, most first when greedy and fewest
  first when lazy, and the first count for which the rest of the pattern matches wins.
  The result is the text each atom matched.

  \<open>Rep c lo hi greedy\<close> is the class \<open>c\<close> repeated \<open>lo\<close> to \<open>hi\<close> times
  (without an upper bound when \<open>hi\<close> is \<open>None\<close>): \<open>\s\<close> is
  \<open>Rep is_space 1 (Some 1) True\<close>, \<open>#{1,4}\<close> is \<open>Rep (is_char CHR ''#'') 1 (Some 4) True\<close>
  and \<open>.+?\<close> is \<open>Rep any_char 1 None False\<close>.
\<close>

datatype atom =
    Bol
  | Rep "nat \<Rightarrow> bool" nat "nat option" bool
  | NotBehind "nat \<Rightarrow> bool"
  | NotAhead "nat \<Rightarrow> bool"
  | Cap atom

type_synonym regex = "atom list"

definition counts :: "(nat \<Rightarrow> bool) \<Rightarrow> nat \<Rightarrow> nat option \<Rightarrow> bool \<Rightarrow> jsstring \<Rightarrow> nat list" where
  "counts c lo hi greedy s =
     (let n = length (takeWhile c s);
          m = (case hi of None \<Rightarrow> n | Some h \<Rightarrow> min h n);
          ks = [lo..<Suc m]
      in if greedy then rev ks else ks)"

fun first_match :: "(nat \<Rightarrow> 'a option) \<Rightarrow> nat list \<Rightarrow> 'a option" where
  "first_match f [] = None"
| "first_match f (k # ks) = (case f k of Some x \<Rightarrow> Some x | None \<Rightarrow> first_match f ks)"

lemma first_match_cong [fundef_cong]:
  "ks = ks' \<Longrightarrow> (\<And>k. k \<in> set ks' \<Longrightarrow> f k = g k) \<Longrightarrow> first_match f ks = first_match g ks'"
  by (induction ks arbitrary: ks') (auto split: option.splits)

definition before :: "nat option \<Rightarrow> jsstring \<Rightarrow> nat \<Rightarrow> nat option" where
  "before p s k = (if k = 0 then p else Some (s ! (k - 1)))"

fun rmatch :: "regex \<Rightarrow> nat option \<Rightarrow> jsstring \<Rightarrow> jsstring list option" where
  "rmatch [] p s = Some []"
| "rmatch (Bol # r) p s =
     (if p = None then map_option (Cons []) (rmatch r p s) else None)"
| "rmatch (NotBehind c # r) p s =
     (case p of
        Some x \<Rightarrow> if c x then None else map_option (Cons []) (rmatch r p s)
      | None \<Rightarrow> map_option (Cons []) (rmatch r p s))"
| "rmatch (NotAhead c # r) p s =
     (case s of
        x # _ \<Rightarrow> if c x then None else map_option (Cons []) (rmatch r p s)
      | [] \<Rightarrow> map_option (Cons []) (rmatch r p s))"
| "rmatch (Rep c lo hi greedy # r) p s =
     first_match (\<lambda>k. map_option (Cons (take k s)) (rmatch r (before p s k) (drop k s)))
       (counts c lo hi greedy s)"
| "rmatch (Cap a # r) p s = rmatch (a # r) p s"

text \<open>
  A replacement string is literal text and \<open>$1\<close>, the text of the capturing group: the
  text matched by the first \<open>Cap\<close> atom.
\<close>

datatype part = Lit jsstring | Group1

definition group1 :: "regex \<Rightarrow> jsstring list \<Rightarrow> jsstring" where
  "group1 r ms = ms ! length (takeWhile (\<lambda>a. case a of Cap _ \<Rightarrow> False | _ \<Rightarrow> True) r)"

definition subst :: "regex \<Rightarrow> part list \<Rightarrow> jsstring list \<Rightarrow> jsstring" where
  "subst r t ms = concat (map (\<lambda>x. case x of Lit l \<Rightarrow> l | Group1 \<Rightarrow> group1 r ms) t)"

text \<open>
  \<open>exec\<close>, \<open>test\<close> and \<open>replace\<close> try the positions of the subject from left to
  right and take the first one where the pattern matches.
\<close>

fun exec_from :: "regex \<Rightarrow> nat option \<Rightarrow> jsstring \<Rightarrow> jsstring list option" where
  "exec_from r p [] = rmatch r p []"
| "exec_from r p (c # cs) =
     (case rmatch r p (c # cs) of Some ms \<Rightarrow> Some ms | None \<Rightarrow> exec_from r (Some c) cs)"

definition exec :: "regex \<Rightarrow> jsstring \<Rightarrow> jsstring list option" where
  "exec r s = exec_from r None s"

definition test :: "regex \<Rightarrow> jsstring \<Rightarrow> bool" where
  "test r s = (exec r s \<noteq> None)"

text \<open>Without the flag \<open>g\<close>, \<open>replace\<close> rewrites the first match only.\<close>

fun replace_first_from :: "regex \<Rightarrow> part list \<Rightarrow> nat option \<Rightarrow> jsstring \<Rightarrow> jsstring" where
  "replace_first_from r t p [] = (case rmatch r p [] of Some ms \<Rightarrow> subst r t ms | None \<Rightarrow> [])"
| "replace_first_from r t p (c # cs) =
     (case rmatch r p (c # cs) of
        Some ms \<Rightarrow> subst r t ms @ drop (length (concat ms)) (c # cs)
      | None \<Rightarrow> c # replace_first_from r t (Some c) cs)"

definition replace_first :: "regex \<Rightarrow> part list \<Rightarrow> jsstring \<Rightarrow> jsstring" where
  "replace_first r t s = replace_first_from r t None s"

text \<open>
  With the flag \<open>g\<close>, every match is rewritten: the search goes on from the end of each
  match, and one character further after an empty match. Characters between matches are
  copied.
\<close>

function replace_all_from :: "regex \<Rightarrow> part list \<Rightarrow> nat option \<Rightarrow> jsstring \<Rightarrow> jsstring" where
  "replace_all_from r t p [] = (case rmatch r p [] of Some ms \<Rightarrow> subst r t ms | None \<Rightarrow> [])"
| "replace_all_from r t p (c # cs) =
     (case rmatch r p (c # cs) of
        Some ms \<Rightarrow>
          (let n = length (concat ms) in
           if n = 0 then subst r t ms @ c # replace_all_from r t (Some c) cs
           else subst r t ms @ replace_all_from r t (Some ((c # cs) ! (n - 1))) (drop n (c # cs)))
      | None \<Rightarrow> c # replace_all_from r t (Some c) cs)"
  by pat_completeness auto
termination
  by (relation "measure (\<lambda>(r, t, p, s). length s)") auto

definition replace_all :: "regex \<Rightarrow> part list \<Rightarrow> jsstring \<Rightarrow> jsstring" where
  "replace_all r t s = replace_all_from r t None s"

section \<open>Data model\<close>

record book_chapter =
  chapter_number :: int
  title :: jsstring
  content :: "jsstring option"
  image_url :: "jsstring option"

record outline_entry =
  o_chapter_number :: int
  o_title :: jsstring
  o_summary :: jsstring
  o_estimated_pages :: int

record book =
  b_title :: jsstring
  b_subtitle :: "jsstring option"
  b_language :: jsstring
  b_status :: jsstring
  b_chapters :: "book_chapter list option"
  b_outline :: "outline_entry list option"

text \<open>The progress report polled from the backend.\<close>

record progress_info =
  p_status :: jsstring
  generated_chapters :: int
  total_chapters :: int
  p_error :: "jsstring option"

section \<open>BookDetail: image source\<close>

text \<open>
  \<open>BACKEND_URL\<close> is read from the build environment and may be undefined; it is a
  parameter here.
\<close>

definition getImageSrc :: "jsstring option \<Rightarrow> jsstring option \<Rightarrow> jsstring option" where
  "getImageSrc BACKEND_URL imageUrl =
     (if \<not> truthy imageUrl then None
      else if startsWith (the imageUrl) (js ''/api'')
        then Some (template BACKEND_URL @ the imageUrl)
      else imageUrl)"

section \<open>BookDetail: derived values of a render\<close>

text \<open>
  \<open>(book.chapters || []).sort((a, b) => a.chapter_number - b.chapter_number)\<close>,
  \<open>book.outline || []\<close> and the progress fraction.
\<close>

definition chapters_of :: "book \<Rightarrow> book_chapter list" where
  "chapters_of b = sort_key chapter_number (case b_chapters b of None \<Rightarrow> [] | Some cs \<Rightarrow> cs)"

definition outline_of :: "book \<Rightarrow> outline_entry list" where
  "outline_of b = (case b_outline b of None \<Rightarrow> [] | Some os \<Rightarrow> os)"

definition progress_denominator :: "book \<Rightarrow> int" where
  "progress_denominator b = max (int (length (outline_of b))) 1"

definition progress :: "book \<Rightarrow> jsnum" where
  "progress b = js_div (int (length (chapters_of b))) (progress_denominator b)"

section \<open>BookCreator: value of the writing progress bar\<close>

definition writing_denominator :: "progress_info \<Rightarrow> int" where
  "writing_denominator wp = max (total_chapters wp) 1"

definition writing_fraction :: "progress_info \<Rightarrow> jsnum" where
  "writing_fraction wp = js_div (generated_chapters wp) (writing_denominator wp)"

definition writing_bar_value :: "progress_info \<Rightarrow> jsnum" where
  "writing_bar_value wp = js_times (writing_fraction wp) 100"

section \<open>Effects of the handlers\<close>

text \<open>
  A handler is modelled by the sequence of effects it performs, in order. An awaited
  request either resolves with a value or rejects with an error, of which the handlers
  read \<open>err.response?.data?.detail\<close> and \<open>err.message\<close>.
\<close>

record api_error =
  detail :: "jsstring option"
  message :: jsstring

datatype 'a outcome = Resolved 'a | Rejected api_error

record image_response =
  r_image_url :: "jsstring option"

datatype event =
    SetGeneratingImage "int option"
  | SetExporting bool
  | SetWritingProgress progress_info
  | FetchBook
  | ToastSuccess jsstring
  | ToastError jsstring
  | ClearInterval
  | Navigate jsstring
  | Download jsstring "nat list"

text \<open>\<open>x || d\<close> on a string that may be absent.\<close>

definition or_else :: "jsstring option \<Rightarrow> jsstring \<Rightarrow> jsstring" where
  "or_else x d = (if truthy x then the x else d)"

section \<open>BookDetail: generating an image\<close>

definition handleGenerateImage :: "int \<Rightarrow> image_response outcome \<Rightarrow> event list" where
  "handleGenerateImage chapterNum result =
     [SetGeneratingImage (Some chapterNum)] @
     (case result of
        Resolved r \<Rightarrow>
          if truthy (r_image_url r)
          then [FetchBook,
                ToastSuccess (js ''Image generated for chapter '' @ show_int chapterNum @ js ''!'')]
          else [ToastError (js ''No image could be generated'')]
      | Rejected err \<Rightarrow> [ToastError (or_else (detail err) (js ''Failed to generate image''))]) @
     [SetGeneratingImage None]"

section \<open>BookDetail: polling while the book is written\<close>

text \<open>
  The effect runs when \<open>book\<close> changes. It installs an interval of 5000 ms unless the
  book is missing or its status is not \<open>writing\<close>; its cleanup clears the interval. A
  tick awaits \<open>getBookProgress\<close>; a rejected request is swallowed.
\<close>

definition detail_poll_ms :: nat where
  "detail_poll_ms = 5000"

definition detail_poll_installed :: "book option \<Rightarrow> bool" where
  "detail_poll_installed bk = (case bk of None \<Rightarrow> False | Some b \<Rightarrow> b_status b = js ''writing'')"

definition detail_tick :: "progress_info outcome \<Rightarrow> event list" where
  "detail_tick result =
     (case result of
        Resolved pr \<Rightarrow>
          if p_status pr \<noteq> js ''writing'' then [ClearInterval, FetchBook] else []
      | Rejected err \<Rightarrow> [])"

definition detail_cleanup :: "event list" where
  "detail_cleanup = [ClearInterval]"

text \<open>
  What happens to an interval: a tick, or the cleanup of the effect (the component
  unmounts, or \<open>book\<close> changes). The state is whether the interval is running.
\<close>

datatype poll_input = Tick "progress_info outcome" | Cleanup

fun detail_poll_step :: "bool \<Rightarrow> poll_input \<Rightarrow> bool \<times> event list" where
  "detail_poll_step False inp = (False, [])"
| "detail_poll_step True (Tick result) =
     (ClearInterval \<notin> set (detail_tick result), detail_tick result)"
| "detail_poll_step True Cleanup = (False, detail_cleanup)"

section \<open>BookDetail: export\<close>

definition re_spaces :: regex where
  "re_spaces = [Rep is_space 1 None True]"

definition export_filename :: "book \<Rightarrow> jsstring \<Rightarrow> jsstring" where
  "export_filename b format =
     replace_all re_spaces [Lit (js ''_'')] (b_title b) @ js ''.'' @ format"

definition handleExport :: "book \<Rightarrow> jsstring \<Rightarrow> nat list outcome \<Rightarrow> event list" where
  "handleExport b format response =
     [SetExporting True] @
     (case response of
        Resolved data \<Rightarrow>
          [Download (export_filename b format) data,
           ToastSuccess (js ''Exported as '' @ toUpperCase format @ js ''!'')]
      | Rejected err \<Rightarrow> [ToastError (js ''Export failed: '' @ message err)]) @
     [SetExporting False]"

text \<open>
  What the page shows: a spinner while loading, nothing without a book, the preview in
  preview mode, and otherwise the detail page, whose preview and export controls are
  rendered only when \<open>chapters.length > 0\<close>. The export menu is the only caller of
  \<open>handleExport\<close>.
\<close>

record detail_state =
  loading :: bool
  book :: "book option"
  previewMode :: bool

datatype view = Spinner | Empty | PreviewPage | DetailPage bool

definition render :: "detail_state \<Rightarrow> view" where
  "render st =
     (if loading st then Spinner
      else case book st of
        None \<Rightarrow> Empty
      | Some b \<Rightarrow>
          if previewMode st then PreviewPage
          else DetailPage (0 < length (chapters_of b)))"

definition can_export :: "detail_state \<Rightarrow> bool" where
  "can_export st = (render st = DetailPage True)"

text \<open>
  Modelled from the spec: the export engine behind \<open>exportBook\<close> (the backend route
  \<open>/books/{id}/export\<close>) is not among the sources. The spec says that exporting a book
  with zero chapters, or in an unrecognized format, fails with \<open>ExportError\<close> and
  returns no bytes, and that otherwise a byte stream in the format is produced. The
  serialization is a parameter. A failed request rejects the promise of \<open>exportBook\<close>
  with the error of the HTTP layer, a parameter as well.
\<close>

datatype export_error = ExportError

definition export_engine ::
  "(book \<Rightarrow> jsstring \<Rightarrow> nat list) \<Rightarrow> book \<Rightarrow> jsstring \<Rightarrow> export_error + nat list" where
  "export_engine serialize b format =
     (if chapters_of b = [] \<or> format \<notin> {js ''pdf'', js ''docx'', js ''epub''}
      then Inl ExportError else Inr (serialize b format))"

definition exportBook ::
  "api_error \<Rightarrow> (book \<Rightarrow> jsstring \<Rightarrow> nat list) \<Rightarrow> book \<Rightarrow> jsstring \<Rightarrow> nat list outcome" where
  "exportBook http_error serialize b format =
     (case export_engine serialize b format of
        Inl e \<Rightarrow> Rejected http_error
      | Inr bytes \<Rightarrow> Resolved bytes)"

section \<open>BookCreator: polling the writing progress\<close>

text \<open>
  \<open>pollProgress\<close> installs an interval of 5000 ms, which nothing but a tick clears. A
  tick awaits \<open>getBookProgress\<close>; a rejected request is swallowed and polling goes on.
\<close>

definition creator_poll_ms :: nat where
  "creator_poll_ms = 5000"

definition creator_tick :: "jsstring \<Rightarrow> jsstring \<Rightarrow> progress_info outcome \<Rightarrow> event list" where
  "creator_tick language bookId result =
     (case result of
        Resolved pr \<Rightarrow>
          SetWritingProgress pr #
          (if p_status pr = js ''chapters_complete'' then
             [ClearInterval,
              ToastSuccess (if language = js ''fr''
                 then js ''Livre termine ! Rendez-vous dans la bibliotheque.''
                 else js ''Book complete! Check the library.''),
              Navigate (js ''/book/'' @ bookId)]
           else if p_status pr = js ''error'' then
             [ClearInterval,
              ToastError (or_else (p_error pr) (js ''Error during generation''))]
           else [])
      | Rejected err \<Rightarrow> [])"

text \<open>
  The interval over a sequence of poll results, one per tick: ticks follow each other
  until one clears the interval.
\<close>

fun creator_poll :: "jsstring \<Rightarrow> jsstring \<Rightarrow> progress_info outcome list \<Rightarrow> event list" where
  "creator_poll language bookId [] = []"
| "creator_poll language bookId (result # results) =
     creator_tick language bookId result @
     (if ClearInterval \<in> set (creator_tick language bookId result) then []
      else creator_poll language bookId results)"

section \<open>BookDetail: the preview of a chapter\<close>

text \<open>
  The patterns of the full preview, in the order of the source:
  \<open>/^#{1,4}\s/\<close>, \<open>/^(#{1,4})/\<close>, \<open>/^#{1,4}\s+/\<close>, \<open>/^[-*]\s/\<close>,
  \<open>/^[-*]\s+/\<close>, \<open>/^\d+[.)]\s/\<close>, \<open>/^\d+[.)]\s+/\<close>, and the three inline
  patterns \<open>/\*{3}(.+?)\*{3}/g\<close>, \<open>/\*{2}(.+?)\*{2}/g\<close> and
  \<open>/(?<!\*)\*(?!\*)(.+?)(?<!\*)\*(?!\*)/g\<close>.
\<close>

definition re_heading :: regex where
  "re_heading = [Bol, Rep (is_char CHR ''#'') 1 (Some 4) True, Rep is_space 1 (Some 1) True]"

definition re_heading_level :: regex where
  "re_heading_level = [Bol, Cap (Rep (is_char CHR ''#'') 1 (Some 4) True)]"

definition re_heading_strip :: regex where
  "re_heading_strip = [Bol, Rep (is_char CHR ''#'') 1 (Some 4) True, Rep is_space 1 None True]"

definition re_bullet :: regex where
  "re_bullet = [Bol, Rep (one_of ''-*'') 1 (Some 1) True, Rep is_space 1 (Some 1) True]"

definition re_bullet_strip :: regex where
  "re_bullet_strip = [Bol, Rep (one_of ''-*'') 1 (Some 1) True, Rep is_space 1 None True]"

definition re_numbered :: regex where
  "re_numbered = [Bol, Rep is_digit 1 None True, Rep (one_of ''.)'') 1 (Some 1) True,
     Rep is_space 1 (Some 1) True]"

definition re_numbered_strip :: regex where
  "re_numbered_strip = [Bol, Rep is_digit 1 None True, Rep (one_of ''.)'') 1 (Some 1) True,
     Rep is_space 1 None True]"

definition re_strong_em :: regex where
  "re_strong_em = [Rep (is_char CHR ''*'') 3 (Some 3) True, Cap (Rep any_char 1 None False),
     Rep (is_char CHR ''*'') 3 (Some 3) True]"

definition re_strong :: regex where
  "re_strong = [Rep (is_char CHR ''*'') 2 (Some 2) True, Cap (Rep any_char 1 None False),
     Rep (is_char CHR ''*'') 2 (Some 2) True]"

definition re_em :: regex where
  "re_em = [NotBehind (is_char CHR ''*''), Rep (is_char CHR ''*'') 1 (Some 1) True,
     NotAhead (is_char CHR ''*''), Cap (Rep any_char 1 None False),
     NotBehind (is_char CHR ''*''), Rep (is_char CHR ''*'') 1 (Some 1) True,
     NotAhead (is_char CHR ''*'')]"

definition inline_html :: "jsstring \<Rightarrow> jsstring" where
  "inline_html trimmed =
     replace_all re_em [Lit (js ''<em>''), Group1, Lit (js ''</em>'')]
       (replace_all re_strong [Lit (js ''<strong>''), Group1, Lit (js ''</strong>'')]
         (replace_all re_strong_em
            [Lit (js ''<strong><em>''), Group1, Lit (js ''</em></strong>'')] trimmed))"

text \<open>
  The node rendered for a line: \<open><br>\<close>, \<open><h2>\<close> with the size of its level,
  \<open><li>\<close> of a disc list, \<open><li>\<close> of a decimal list, or \<open><p>\<close> with the
  inline HTML. \<open>match(...)[1]\<close> raises a TypeError when the pattern does not match.
\<close>

datatype block =
    Blank
  | Heading nat jsstring
  | BulletItem jsstring
  | NumberedItem jsstring
  | Paragraph jsstring

datatype js_error = TypeError

definition heading_size :: "nat \<Rightarrow> jsstring" where
  "heading_size level =
     (if level = 1 then js ''text-2xl'' else if level = 2 then js ''text-xl''
      else if level = 3 then js ''text-lg'' else if level = 4 then js ''text-base''
      else js ''text-lg'')"

definition classify_line :: "jsstring \<Rightarrow> js_error + block" where
  "classify_line line =
     (let trimmed = trim line in
      if trimmed = [] then Inr Blank
      else if test re_heading trimmed then
        (case exec re_heading_level trimmed of
           None \<Rightarrow> Inl TypeError
         | Some m \<Rightarrow>
             Inr (Heading (length (group1 re_heading_level m))
                    (replace_first re_heading_strip [] trimmed)))
      else if test re_bullet trimmed then
        Inr (BulletItem (replace_first re_bullet_strip [] trimmed))
      else if test re_numbered trimmed then
        Inr (NumberedItem (replace_first re_numbered_strip [] trimmed))
      else Inr (Paragraph (inline_html trimmed)))"


section \<open>BookDetail: the content preview of an expanded chapter card\<close>













section \<open>The dialect and the file name as the specification words them\<close>

text \<open>
  The classification of a trimmed line as the specification describes it: 1 to 4
  \<open>#\<close> followed by white space is a heading of that level with the remainder as text;
  \<open>-\<close> or \<open>*\<close> followed by white space is a bullet item; digits, then \<open>.\<close> or
  \<open>)\<close>, then white space is a numbered item; the empty line is blank; every other line
  is a paragraph.
\<close>

definition hashes :: "jsstring \<Rightarrow> nat" where
  "hashes t = length (takeWhile (is_char CHR ''#'') t)"

definition digits :: "jsstring \<Rightarrow> nat" where
  "digits t = length (takeWhile is_digit t)"

definition is_heading :: "jsstring \<Rightarrow> bool" where
  "is_heading t = (1 \<le> hashes t \<and> hashes t \<le> 4 \<and> hashes t < length t \<and> is_space (t ! hashes t))"

definition is_bullet :: "jsstring \<Rightarrow> bool" where
  "is_bullet t = (case t of m # c # rest \<Rightarrow> one_of ''-*'' m \<and> is_space c | _ \<Rightarrow> False)"

definition is_numbered :: "jsstring \<Rightarrow> bool" where
  "is_numbered t = (1 \<le> digits t \<and> digits t + 1 < length t \<and> one_of ''.)'' (t ! digits t)
     \<and> is_space (t ! (digits t + 1)))"

definition spec_classify :: "jsstring \<Rightarrow> block" where
  "spec_classify t =
     (if t = [] then Blank
      else if is_heading t then Heading (hashes t) (dropWhile is_space (drop (hashes t) t))
      else if is_bullet t then BulletItem (dropWhile is_space (drop 1 t))
      else if is_numbered t then NumberedItem (dropWhile is_space (drop (digits t + 1) t))
      else Paragraph (inline_html t))"

text \<open>
  A paragraph line as a sequence of segments: plain text and the three kinds of emphasis
  run, \<open>*x*\<close>, \<open>**x**\<close> and \<open>***x***\<close>. \<open>source\<close> is the markdown of the
  line, \<open>html_of\<close> the HTML the specification prescribes for it.
\<close>

datatype seg = Plain jsstring | Italic jsstring | Bold jsstring | BoldItalic jsstring

fun seg_source :: "seg \<Rightarrow> jsstring" where
  "seg_source (Plain t) = t"
| "seg_source (Italic x) = js ''*'' @ x @ js ''*''"
| "seg_source (Bold x) = js ''**'' @ x @ js ''**''"
| "seg_source (BoldItalic x) = js ''***'' @ x @ js ''***''"

fun seg_html :: "seg \<Rightarrow> jsstring" where
  "seg_html (Plain t) = t"
| "seg_html (Italic x) = js ''<em>'' @ x @ js ''</em>''"
| "seg_html (Bold x) = js ''<strong>'' @ x @ js ''</strong>''"
| "seg_html (BoldItalic x) = js ''<strong><em>'' @ x @ js ''</em></strong>''"

definition source :: "seg list \<Rightarrow> jsstring" where
  "source d = concat (map seg_source d)"

definition html_of :: "seg list \<Rightarrow> jsstring" where
  "html_of d = concat (map seg_html d)"

text \<open>
  Plain text has no asterisk. The text of a run is not empty and has neither an asterisk
  nor a line terminator. Runs are separated: between two runs stands plain text that is
  not empty. The flag of \<open>separated\<close> says whether a run may start here.
\<close>

definition no_star :: "jsstring \<Rightarrow> bool" where
  "no_star t = list_all (\<lambda>c. \<not> is_char CHR ''*'' c) t"

definition emph_text :: "jsstring \<Rightarrow> bool" where
  "emph_text x = (x \<noteq> [] \<and> no_star x \<and> list_all any_char x)"

fun seg_ok :: "seg \<Rightarrow> bool" where
  "seg_ok (Plain t) = no_star t"
| "seg_ok (Italic x) = emph_text x"
| "seg_ok (Bold x) = emph_text x"
| "seg_ok (BoldItalic x) = emph_text x"

fun separated :: "bool \<Rightarrow> seg list \<Rightarrow> bool" where
  "separated ok [] = True"
| "separated ok (Plain t # d) = separated (ok \<or> t \<noteq> []) d"
| "separated ok (s # d) = (ok \<and> separated False d)"

definition well_formed :: "seg list \<Rightarrow> bool" where
  "well_formed d = (list_all seg_ok d \<and> separated True d)"

text \<open>The line after the runs of one kind have been rewritten to HTML.\<close>

fun bold_italic_done :: "seg \<Rightarrow> seg" where
  "bold_italic_done (BoldItalic x) = Plain (seg_html (BoldItalic x))"
| "bold_italic_done s = s"

fun bold_done :: "seg \<Rightarrow> seg" where
  "bold_done (Bold x) = Plain (seg_html (Bold x))"
| "bold_done s = s"

fun italic_done :: "seg \<Rightarrow> seg" where
  "italic_done (Italic x) = Plain (seg_html (Italic x))"
| "italic_done s = s"





text \<open>Every maximal run of white space replaced by one underscore.\<close>

function squash :: "jsstring \<Rightarrow> jsstring" where
  "squash [] = []"
| "squash (c # cs) =
     (if is_space c then of_char CHR ''_'' # squash (dropWhile is_space cs) else c # squash cs)"
  by pat_completeness auto
termination
  by (relation "measure length") (simp_all add: length_dropWhile_le le_imp_less_Suc)

section \<open>Notions for reasoning about the matcher\<close>

text \<open>
  A pattern refuses a class when it matches no string that starts with a character of the
  class. A pattern starts with an asterisk when it matches neither the empty string nor a
  string that starts with another character.
\<close>

definition refuses :: "(nat \<Rightarrow> bool) \<Rightarrow> regex \<Rightarrow> bool" where
  "refuses c r = (\<forall>p s. s \<noteq> [] \<and> c (hd s) \<longrightarrow> rmatch r p s = None)"

definition starts_with_star :: "regex \<Rightarrow> bool" where
  "starts_with_star r = (\<forall>p s. s = [] \<or> \<not> is_char CHR ''*'' (hd s) \<longrightarrow> rmatch r p s = None)"

text \<open>A run of \<open>n\<close> asterisks; the code unit of the asterisk is 42.\<close>

definition stars :: "nat \<Rightarrow> jsstring" where
  "stars n = replicate n 42"

text \<open>
  A pattern skips the runs of \<open>n\<close> asterisks when it matches at no position inside such
  a run; at every position but the first the character before is an asterisk.
\<close>

definition skips :: "regex \<Rightarrow> nat \<Rightarrow> bool" where
  "skips r n = (\<forall>k q rest. 0 < k \<and> k \<le> n \<and> (rest = [] \<or> \<not> is_char CHR ''*'' (hd rest))
       \<and> (k < n \<longrightarrow> q = Some 42)
     \<longrightarrow> rmatch r q (stars k @ rest) = None)"

section \<open>Theorems\<close>

subsection \<open>The matcher\<close>

text \<open>
  The equation of \<open>rmatch\<close> for a quantified class is unfolded only where a proof asks
  for it.
\<close>

declare rmatch.simps(5) [simp del]

lemma counts_mem:
  "k \<in> set (counts c lo hi g s) \<longleftrightarrow>
     lo \<le> k \<and> k \<le> length (takeWhile c s) \<and> (case hi of None \<Rightarrow> True | Some h \<Rightarrow> k \<le> h)"
  by (auto simp add: counts_def Let_def split: option.splits)

lemma first_match_None: "(\<And>k. k \<in> set ks \<Longrightarrow> f k = None) \<Longrightarrow> first_match f ks = None"
  by (induction ks) simp_all

lemma first_match_Some_mem: "first_match f ks = Some y \<Longrightarrow> \<exists>k\<in>set ks. f k = Some y"
  by (induction ks) (auto split: option.splits)

lemma first_match_only:
  "(\<And>k. k \<in> set ks \<Longrightarrow> k \<noteq> k0 \<Longrightarrow> f k = None) \<Longrightarrow>
     first_match f ks = (if k0 \<in> set ks then f k0 else None)"
proof (induction ks)
  case Nil
  show ?case by simp
next
  case (Cons k ks)
  show ?case
  proof (cases "k = k0")
    case True
    have "first_match f ks = None \<or> first_match f ks = f k0"
      using Cons by (auto split: if_splits)
    then show ?thesis using True by (auto split: option.splits)
  next
    case False
    then have "f k = None" using Cons.prems by simp
    then show ?thesis using Cons False by simp
  qed
qed

lemma first_match_upt:
  "lo \<le> k0 \<Longrightarrow> k0 < hi \<Longrightarrow> (\<And>k. lo \<le> k \<Longrightarrow> k < k0 \<Longrightarrow> f k = None) \<Longrightarrow> f k0 = Some y \<Longrightarrow>
     first_match f [lo..<hi] = Some y"
proof (induction "k0 - lo" arbitrary: lo)
  case 0
  then have "lo = k0" by simp
  then show ?case using 0 by (simp add: upt_conv_Cons)
next
  case (Suc d)
  then have lt: "lo < k0" by simp
  have "f lo = None" using Suc.prems lt by simp
  moreover have "first_match f [Suc lo..<hi] = Some y"
    using Suc by (intro Suc.hyps) auto
  ultimately show ?case using lt Suc.prems by (simp add: upt_conv_Cons)
qed

lemma run_nth: "k < length (takeWhile c s) \<Longrightarrow> c (s ! k)"
  by (metis nth_mem set_takeWhileD takeWhile_nth)

lemma run_length_le: "length (takeWhile c s) \<le> length s"
  by (rule length_takeWhile_le)

lemma run_pos: "0 < length (takeWhile c s) \<longleftrightarrow> s \<noteq> [] \<and> c (hd s)"
  by (cases s) auto

lemma take_run: "take (length (takeWhile c s)) s = takeWhile c s"
  by (simp add: takeWhile_eq_take [symmetric])

lemma drop_run: "drop (length (takeWhile c s)) s = dropWhile c s"
  by (simp add: dropWhile_eq_drop [symmetric])

text \<open>A quantified class needs its first character when it must match at least once.\<close>

lemma rmatch_Rep_needs:
  assumes "0 < lo" "rmatch (Rep c lo hi g # r) p s = Some ms"
  shows "s \<noteq> [] \<and> c (hd s)"
proof -
  obtain k where "k \<in> set (counts c lo hi g s)"
    using assms(2) by (auto simp add: rmatch.simps(5) dest: first_match_Some_mem)
  then have "lo \<le> length (takeWhile c s)" by (simp add: counts_mem)
  then have "0 < length (takeWhile c s)" using assms(1) by linarith
  then show ?thesis using run_pos [of c s] by blast
qed

lemma rmatch_Rep_refuses:
  "0 < lo \<Longrightarrow> s = [] \<or> \<not> c (hd s) \<Longrightarrow> rmatch (Rep c lo hi g # r) p s = None"
  using rmatch_Rep_needs [of lo c hi g r p s] by (cases "rmatch (Rep c lo hi g # r) p s") auto

lemma refuses_Rep: "0 < lo \<Longrightarrow> (\<And>x. c x \<Longrightarrow> \<not> d x) \<Longrightarrow> refuses c (Rep d lo hi g # r)"
  unfolding refuses_def by (auto intro!: rmatch_Rep_refuses)

text \<open>
  When what follows refuses every string that starts in the class, the class takes its
  whole run: no shorter count can lead to a match.
\<close>

lemma rmatch_Rep_whole_run:
  assumes refuse: "refuses c r"
  shows "rmatch (Rep c lo hi g # r) p s =
     (if lo \<le> length (takeWhile c s)
         \<and> (case hi of None \<Rightarrow> True | Some h \<Rightarrow> length (takeWhile c s) \<le> h)
      then map_option (Cons (takeWhile c s))
             (rmatch r (before p s (length (takeWhile c s))) (dropWhile c s))
      else None)"
proof -
  let ?n = "length (takeWhile c s)"
  let ?f = "\<lambda>k. map_option (Cons (take k s)) (rmatch r (before p s k) (drop k s))"
  have other: "?f k = None" if "k \<in> set (counts c lo hi g s)" "k \<noteq> ?n" for k
  proof -
    have lt: "k < ?n" using that by (simp add: counts_mem)
    then have "k < length s" using run_length_le [of c s] by simp
    then have "drop k s \<noteq> []" "hd (drop k s) = s ! k" by (simp_all add: hd_drop_conv_nth)
    then have "rmatch r (before p s k) (drop k s) = None"
      using refuse run_nth [OF lt] by (simp add: refuses_def)
    then show ?thesis by simp
  qed
  have "rmatch (Rep c lo hi g # r) p s
      = (if ?n \<in> set (counts c lo hi g s) then ?f ?n else None)"
    using first_match_only [of "counts c lo hi g s" ?n ?f] other by (simp add: rmatch.simps(5))
  then show ?thesis by (simp add: counts_mem take_run drop_run)
qed

text \<open>A class that matches exactly once.\<close>

lemma rmatch_Rep_one:
  "rmatch (Rep c (Suc 0) (Some (Suc 0)) g # r) p s =
     (case s of [] \<Rightarrow> None
      | x # xs \<Rightarrow> if c x then map_option (Cons [x]) (rmatch r (Some x) xs) else None)"
proof (cases s)
  case Nil
  then show ?thesis by (simp add: counts_def rmatch.simps(5))
next
  case (Cons x xs)
  then show ?thesis by (simp add: counts_def before_def rmatch.simps(5) split: option.splits)
qed

text \<open>A greedy class at the end of a pattern takes as much as it may.\<close>

lemma rmatch_Rep_last:
  "rmatch [Rep c lo hi True] p s =
     (let m = (case hi of None \<Rightarrow> length (takeWhile c s) | Some h \<Rightarrow> min h (length (takeWhile c s)))
      in if lo \<le> m then Some [take m s] else None)"
proof -
  define m where "m = (case hi of None \<Rightarrow> length (takeWhile c s) | Some h \<Rightarrow> min h (length (takeWhile c s)))"
  have cs: "counts c lo hi True s = rev [lo..<Suc m]"
    by (simp add: counts_def Let_def m_def)
  show ?thesis
  proof (cases "lo \<le> m")
    case True
    then have "rev [lo..<Suc m] = m # rev [lo..<m]" by simp
    then show ?thesis using True cs by (simp add: m_def [symmetric] Let_def rmatch.simps(5))
  next
    case False
    then show ?thesis using cs by (simp add: m_def [symmetric] Let_def rmatch.simps(5))
  qed
qed

subsection \<open>Patterns anchored at the start\<close>

lemma exec_from_Bol: "exec_from (Bol # r) (Some c) s = None"
  by (induction s arbitrary: c) simp_all

lemma exec_Bol: "exec (Bol # r) s = map_option (Cons []) (rmatch r None s)"
  by (cases s) (simp_all add: exec_def exec_from_Bol split: option.splits)

lemma test_Bol: "test (Bol # r) s = (rmatch r None s \<noteq> None)"
  by (simp add: test_def exec_Bol)

lemma replace_first_from_Bol: "replace_first_from (Bol # r) t (Some c) s = s"
  by (induction s arbitrary: c) simp_all

lemma replace_first_Bol:
  "replace_first (Bol # r) [] s =
     (case rmatch r None s of Some ms \<Rightarrow> drop (length (concat ms)) s | None \<Rightarrow> s)"
  by (cases s) (simp_all add: replace_first_def replace_first_from_Bol subst_def split: option.splits)

subsection \<open>The tests and strips of the line classifier\<close>

lemma hash_not_space: "is_char CHR ''#'' c \<Longrightarrow> \<not> is_space c"
  by (simp add: is_char_def is_space_def)

lemma digit_not_mark: "is_digit c \<Longrightarrow> \<not> one_of ''.)'' c"
  by (auto simp add: is_digit_def one_of_def js_def)

lemma after_run:
  "dropWhile c s =
     (if length (takeWhile c s) < length s
      then s ! length (takeWhile c s) # drop (Suc (length (takeWhile c s))) s else [])"
proof (cases "length (takeWhile c s) < length s")
  case True
  then show ?thesis by (simp add: drop_run [symmetric] Cons_nth_drop_Suc)
next
  case False
  then show ?thesis by (simp add: drop_run [symmetric])
qed

lemma drop_shape:
  "drop n s = (if n < length s then s ! n # drop (Suc n) s else [])"
  by (simp add: Cons_nth_drop_Suc)

lemma heading_body:
  "rmatch [Rep (is_char CHR ''#'') (Suc 0) (Some 4) True, Rep is_space (Suc 0) (Some (Suc 0)) True]
      None t =
     (if is_heading t
      then Some [takeWhile (is_char CHR ''#'') t, [t ! hashes t]] else None)"
proof -
  have rf: "refuses (is_char CHR ''#'') [Rep is_space (Suc 0) (Some (Suc 0)) True]"
    by (rule refuses_Rep) (simp_all add: hash_not_space)
  show ?thesis
    by (simp add: rmatch_Rep_whole_run rf rmatch_Rep_one after_run [of "is_char CHR ''#''" t]
          is_heading_def hashes_def)
qed

lemma test_heading: "test re_heading t = is_heading t"
  by (simp add: re_heading_def test_Bol heading_body)

lemma heading_level:
  "is_heading t \<Longrightarrow>
     (case exec re_heading_level t of None \<Rightarrow> None
      | Some m \<Rightarrow> Some (length (group1 re_heading_level m))) = Some (hashes t)"
proof -
  assume h: "is_heading t"
  have "rmatch [Cap (Rep (is_char CHR ''#'') 1 (Some 4) True)] None t
      = rmatch [Rep (is_char CHR ''#'') 1 (Some 4) True] None t"
    by (simp only: rmatch.simps(6))
  also have "\<dots> = Some [take (hashes t) t]"
    using h by (auto simp add: rmatch_Rep_last is_heading_def hashes_def min_def dest: le_antisym)
  finally show ?thesis
    using h by (simp add: re_heading_level_def exec_Bol group1_def is_heading_def
        )
qed

lemma heading_strip:
  "is_heading t \<Longrightarrow>
     replace_first re_heading_strip [] t = dropWhile is_space (drop (hashes t) t)"
proof -
  assume h: "is_heading t"
  let ?d = "dropWhile (is_char CHR ''#'') t"
  have rf: "refuses (is_char CHR ''#'') [Rep is_space (Suc 0) None True]"
    by (rule refuses_Rep) (simp_all add: hash_not_space)
  have d: "?d = drop (hashes t) t" by (simp add: hashes_def drop_run)
  have sp: "1 \<le> length (takeWhile is_space ?d)"
    using h by (simp add: after_run [of "is_char CHR ''#''" t] is_heading_def hashes_def)
  have "rmatch [Rep (is_char CHR ''#'') 1 (Some 4) True, Rep is_space 1 None True] None t
      = Some [takeWhile (is_char CHR ''#'') t, takeWhile is_space ?d]"
    using h sp by (simp add: rmatch_Rep_whole_run rf rmatch_Rep_last is_heading_def hashes_def
         take_run)
  then have "replace_first re_heading_strip [] t
      = drop (length (takeWhile (is_char CHR ''#'') t) + length (takeWhile is_space ?d)) t"
    by (simp add: re_heading_strip_def replace_first_Bol)
  also have "\<dots> = drop (length (takeWhile is_space ?d)) ?d"
    by (simp add: d hashes_def add.commute)
  also have "\<dots> = dropWhile is_space ?d" by (rule drop_run)
  finally show ?thesis by (simp add: d)
qed

lemma test_bullet: "test re_bullet t = is_bullet t"
  by (simp add: re_bullet_def test_Bol rmatch_Rep_one is_bullet_def
        split: list.splits)

lemma bullet_strip:
  "is_bullet t \<Longrightarrow> replace_first re_bullet_strip [] t = dropWhile is_space (drop 1 t)"
proof -
  assume b: "is_bullet t"
  then obtain m c rest where t: "t = m # c # rest" and m: "one_of ''-*'' m" and c: "is_space c"
    by (auto simp add: is_bullet_def split: list.splits)
  have "rmatch [Rep (one_of ''-*'') 1 (Some 1) True, Rep is_space 1 None True] None t
      = Some [[m], takeWhile is_space (c # rest)]"
    using m c by (simp add: t rmatch_Rep_one rmatch_Rep_last take_run)
  then have "replace_first re_bullet_strip [] t
      = drop (length (takeWhile is_space (c # rest))) (c # rest)"
    by (simp add: re_bullet_strip_def replace_first_Bol t)
  also have "\<dots> = dropWhile is_space (c # rest)" by (rule drop_run)
  finally show ?thesis by (simp add: t)
qed

lemma numbered_body:
  "rmatch (Rep is_digit (Suc 0) None True # Rep (one_of ''.)'') (Suc 0) (Some (Suc 0)) True # r)
      None t =
     (if 1 \<le> digits t \<and> digits t < length t \<and> one_of ''.)'' (t ! digits t)
      then map_option (\<lambda>ms. takeWhile is_digit t # [t ! digits t] # ms)
             (rmatch r (Some (t ! digits t)) (drop (Suc (digits t)) t))
      else None)"
proof -
  have rf: "refuses is_digit (Rep (one_of ''.)'') (Suc 0) (Some (Suc 0)) True # r)"
    by (rule refuses_Rep) (simp_all add: digit_not_mark)
  show ?thesis
    by (simp add: rmatch_Rep_whole_run rf rmatch_Rep_one after_run [of is_digit t] digits_def
          option.map_comp comp_def)
qed

lemma test_numbered: "test re_numbered t = is_numbered t"
  by (auto simp add: re_numbered_def test_Bol numbered_body rmatch_Rep_one is_numbered_def
        drop_shape [of "Suc (digits t)" t])

lemma numbered_strip:
  "is_numbered t \<Longrightarrow>
     replace_first re_numbered_strip [] t = dropWhile is_space (drop (digits t + 1) t)"
proof -
  assume n: "is_numbered t"
  let ?d = "drop (Suc (digits t)) t"
  have sp: "1 \<le> length (takeWhile is_space ?d)"
    using n by (simp add: is_numbered_def drop_shape [of "Suc (digits t)" t])
  have "rmatch [Rep is_digit 1 None True, Rep (one_of ''.)'') 1 (Some 1) True,
          Rep is_space 1 None True] None t
      = Some [takeWhile is_digit t, [t ! digits t], takeWhile is_space ?d]"
    using n sp by (simp add: numbered_body rmatch_Rep_last is_numbered_def take_run
        )
  then have "replace_first re_numbered_strip [] t
      = drop (length (takeWhile is_digit t) + (1 + length (takeWhile is_space ?d))) t"
    by (simp add: re_numbered_strip_def replace_first_Bol)
  also have "\<dots> = drop (length (takeWhile is_space ?d)) ?d"
    by (simp add: digits_def add.commute)
  also have "\<dots> = dropWhile is_space ?d" by (rule drop_run)
  finally show ?thesis by simp
qed

lemma classify_line_spec: "classify_line line = Inr (spec_classify (trim line))"
proof -
  let ?t = "trim line"
  consider "?t = []" | "?t \<noteq> []" "is_heading ?t" | "?t \<noteq> []" "\<not> is_heading ?t" "is_bullet ?t"
    | "?t \<noteq> []" "\<not> is_heading ?t" "\<not> is_bullet ?t" "is_numbered ?t"
    | "?t \<noteq> []" "\<not> is_heading ?t" "\<not> is_bullet ?t" "\<not> is_numbered ?t"
    by blast
  then show ?thesis
  proof cases
    case 1
    then show ?thesis by (simp add: classify_line_def spec_classify_def)
  next
    case 2
    then show ?thesis
      using heading_level [OF 2(2)] heading_strip [OF 2(2)]
      by (auto simp add: classify_line_def spec_classify_def test_heading Let_def
            split: option.splits)
  next
    case 3
    then show ?thesis
      using bullet_strip [OF 3(3)]
      by (simp add: classify_line_def spec_classify_def test_heading test_bullet Let_def)
  next
    case 4
    then show ?thesis
      using numbered_strip [OF 4(4)]
      by (simp add: classify_line_def spec_classify_def test_heading test_bullet test_numbered
            Let_def)
  next
    case 5
    then show ?thesis
      by (simp add: classify_line_def spec_classify_def test_heading test_bullet test_numbered
            Let_def)
  qed
qed

subsection \<open>The inline patterns at one position\<close>

lemma star_any_char: "is_char CHR ''*'' c \<Longrightarrow> any_char c"
  by (simp add: is_char_def any_char_def is_line_terminator_def)

lemma counts_exact:
  "counts c k (Some k) g s = (if k \<le> length (takeWhile c s) then [k] else [])"
  by (simp add: counts_def Let_def min_def)

lemma rmatch_Rep_exact:
  "rmatch (Rep c k (Some k) g # r) p s =
     (if k \<le> length (takeWhile c s)
      then map_option (Cons (take k s)) (rmatch r (before p s k) (drop k s)) else None)"
  by (simp add: rmatch.simps(5) counts_exact split: option.splits)

lemma rmatch_Rep_short:
  "length (takeWhile c s) < lo \<Longrightarrow> rmatch (Rep c lo hi g # r) p s = None"
  by (simp add: rmatch.simps(5) counts_def Let_def split: option.splits)

text \<open>
  The lazy \<open>.+?\<close> stops at the end of a text without asterisks when the rest of the
  pattern, which needs an asterisk first, matches there.
\<close>

lemma rmatch_lazy_stop:
  assumes rf: "refuses (\<lambda>c. \<not> is_char CHR ''*'' c) r"
    and x: "emph_text x"
    and go: "rmatch r (Some (last x)) y \<noteq> None"
  shows "rmatch (Rep any_char (Suc 0) None False # r) p (x @ y)
     = map_option (Cons x) (rmatch r (Some (last x)) y)"
proof -
  let ?f = "\<lambda>k. map_option (Cons (take k (x @ y)))
     (rmatch r (before p (x @ y) k) (drop k (x @ y)))"
  have ne: "x \<noteq> []" and ns: "\<And>c. c \<in> set x \<Longrightarrow> \<not> is_char CHR ''*'' c"
    and ac: "\<And>c. c \<in> set x \<Longrightarrow> any_char c"
    using x by (auto simp add: emph_text_def no_star_def list_all_iff)
  have run: "length x \<le> length (takeWhile any_char (x @ y))"
    using ac by (simp add: takeWhile_append2)
  have early: "?f k = None" if "Suc 0 \<le> k" "k < length x" for k
  proof -
    have "drop k (x @ y) \<noteq> []" "hd (drop k (x @ y)) = x ! k"
      using that by (simp_all add: hd_append hd_drop_conv_nth)
    moreover have "\<not> is_char CHR ''*'' (x ! k)" using that ns by simp
    ultimately have "rmatch r (before p (x @ y) k) (drop k (x @ y)) = None"
      using rf by (simp add: refuses_def)
    then show ?thesis by simp
  qed
  have at: "?f (length x) = map_option (Cons x) (rmatch r (Some (last x)) y)"
    using ne by (simp add: before_def nth_append last_conv_nth)
  obtain ms where ms: "rmatch r (Some (last x)) y = Some ms" using go by auto
  have "first_match ?f [Suc 0..<Suc (length (takeWhile any_char (x @ y)))] = Some (x # ms)"
  proof (rule first_match_upt [where ?k0.0 = "length x"])
    show "Suc 0 \<le> length x" using ne by (cases x) simp_all
    show "length x < Suc (length (takeWhile any_char (x @ y)))" using run by simp
    show "?f k = None" if "Suc 0 \<le> k" "k < length x" for k using early that .
    show "?f (length x) = Some (x # ms)" using at ms by simp
  qed
  then show ?thesis
    by (simp add: rmatch.simps(5) counts_def Let_def ms)
qed

lemma refuses_plain_Rep:
  "0 < lo \<Longrightarrow> refuses (\<lambda>c. \<not> is_char CHR ''*'' c) (Rep (is_char CHR ''*'') lo hi g # r)"
  by (rule refuses_Rep) simp_all

lemma refuses_NotBehind: "refuses c r \<Longrightarrow> refuses c (NotBehind d # r)"
  by (auto simp add: refuses_def split: option.splits)

lemma emph_text_hd: "emph_text x \<Longrightarrow> \<not> is_char CHR ''*'' (hd x) \<and> \<not> is_char CHR ''*'' (last x)"
  by (auto simp add: emph_text_def no_star_def list_all_iff)

lemma run_stars_emph: "emph_text x \<Longrightarrow> takeWhile (is_char CHR ''*'') (x @ y) = []"
  by (cases x) (auto simp add: emph_text_def no_star_def)

lemma strong_em_match:
  assumes x: "emph_text x"
  shows "rmatch re_strong_em p (js ''***'' @ x @ js ''***'' @ rest)
     = Some [js ''***'', x, js ''***'']"
proof -
  let ?close = "[Rep (is_char CHR ''*'') 3 (Some 3) True]"
  have close: "rmatch ?close q (js ''***'' @ rest) = Some [js ''***'']" for q
    by (simp add: rmatch_Rep_exact js_def is_char_def)
  have "rmatch (Rep any_char (Suc 0) None False # ?close) q (x @ js ''***'' @ rest)
      = Some [x, js ''***'']" for q
    using rmatch_lazy_stop [OF refuses_plain_Rep x, of 3 "Some 3" True "[]" "js ''***'' @ rest" q]
    by (simp add: close)
  then show ?thesis
    by (simp add: re_strong_em_def rmatch_Rep_exact js_def is_char_def)
qed

lemma strong_match:
  assumes x: "emph_text x"
  shows "rmatch re_strong p (js ''**'' @ x @ js ''**'' @ rest) = Some [js ''**'', x, js ''**'']"
proof -
  let ?close = "[Rep (is_char CHR ''*'') 2 (Some 2) True]"
  have close: "rmatch ?close q (js ''**'' @ rest) = Some [js ''**'']" for q
    by (simp add: rmatch_Rep_exact js_def is_char_def)
  have "rmatch (Rep any_char (Suc 0) None False # ?close) q (x @ js ''**'' @ rest)
      = Some [x, js ''**'']" for q
    using rmatch_lazy_stop [OF refuses_plain_Rep x, of 2 "Some 2" True "[]" "js ''**'' @ rest" q]
    by (simp add: close)
  then show ?thesis
    by (simp add: re_strong_def rmatch_Rep_exact js_def is_char_def)
qed

lemma em_match:
  assumes x: "emph_text x" and p: "p \<noteq> Some 42"
    and rest: "rest = [] \<or> \<not> is_char CHR ''*'' (hd rest)"
  shows "rmatch re_em p (js ''*'' @ x @ js ''*'' @ rest)
     = Some [[], js ''*'', [], x, [], js ''*'', []]"
proof -
  let ?close = "[NotBehind (is_char CHR ''*''), Rep (is_char CHR ''*'') (Suc 0) (Some (Suc 0)) True,
     NotAhead (is_char CHR ''*'')]"
  have close: "rmatch ?close (Some (last x)) (js ''*'' @ rest) = Some [[], js ''*'', []]"
    using emph_text_hd [OF x] rest
    by (cases rest) (simp_all add: rmatch_Rep_one js_def is_char_def)
  have rf: "refuses (\<lambda>c. \<not> is_char CHR ''*'' c) ?close"
    by (intro refuses_NotBehind refuses_plain_Rep) simp
  have go: "rmatch ?close (Some (last x)) (js ''*'' @ rest) \<noteq> None"
    unfolding close by simp
  have lazy: "rmatch (Rep any_char (Suc 0) None False # ?close) q (x @ js ''*'' @ rest)
      = Some [x, [], js ''*'', []]" for q
    unfolding rmatch_lazy_stop [OF rf x go] close by simp
  obtain c cs where xc: "x = c # cs" and c: "\<not> is_char CHR ''*'' c"
    using x emph_text_hd [OF x] by (cases x) (auto simp add: emph_text_def)
  have ahead: "rmatch (NotAhead (is_char CHR ''*'') # Cap (Rep any_char (Suc 0) None False) # ?close)
      q (x @ js ''*'' @ rest) = Some [[], x, [], js ''*'', []]" for q
    using lazy [of q] c by (simp add: xc)
  show ?thesis
    using p ahead [of "Some 42"]
    by (cases p) (simp_all add: re_em_def rmatch_Rep_one js_def is_char_def)
qed

lemma strong_em_short:
  "length (takeWhile (is_char CHR ''*'') s) < 3 \<Longrightarrow> rmatch re_strong_em p s = None"
  by (simp add: re_strong_em_def rmatch_Rep_short)

lemma strong_short:
  "length (takeWhile (is_char CHR ''*'') s) < 2 \<Longrightarrow> rmatch re_strong p s = None"
  by (simp add: re_strong_def rmatch_Rep_short)

lemma em_behind: "rmatch re_em (Some 42) s = None"
  by (simp add: re_em_def is_char_def)

lemma em_ahead: "rmatch re_em p (42 # 42 # s) = None"
  by (simp add: re_em_def rmatch_Rep_one is_char_def split: option.splits)

lemma em_needs_star: "s = [] \<or> \<not> is_char CHR ''*'' (hd s) \<Longrightarrow> rmatch re_em p s = None"
  by (cases s) (auto simp add: re_em_def rmatch_Rep_one split: option.splits)

subsection \<open>Replacing along a line\<close>

lemma takeWhile_replicate_append:
  "P c \<Longrightarrow> takeWhile P (replicate k c @ rest) = replicate k c @ takeWhile P rest"
  by (induction k) simp_all

lemma run_of_stars:
  assumes "rest = [] \<or> \<not> is_char CHR ''*'' (hd rest)"
  shows "length (takeWhile (is_char CHR ''*'') (stars k @ rest)) = k"
proof -
  have "takeWhile (is_char CHR ''*'') rest = []" using assms by (cases rest) auto
  moreover have "is_char CHR ''*'' (42)" by (simp add: is_char_def)
  ultimately show ?thesis
    unfolding stars_def by (simp only: takeWhile_replicate_append) simp
qed

lemma starts_strong_em: "starts_with_star re_strong_em"
  unfolding starts_with_star_def
proof (intro allI impI)
  fix p s assume "s = [] \<or> \<not> is_char CHR ''*'' (hd s)"
  then have "takeWhile (is_char CHR ''*'') s = []" by (cases s) auto
  then show "rmatch re_strong_em p s = None" by (simp add: strong_em_short)
qed

lemma starts_strong: "starts_with_star re_strong"
  unfolding starts_with_star_def
proof (intro allI impI)
  fix p s assume "s = [] \<or> \<not> is_char CHR ''*'' (hd s)"
  then have "takeWhile (is_char CHR ''*'') s = []" by (cases s) auto
  then show "rmatch re_strong p s = None" by (simp add: strong_short)
qed

lemma starts_em: "starts_with_star re_em"
  by (simp add: starts_with_star_def em_needs_star)

lemma skips_strong_em: "n < 3 \<Longrightarrow> skips re_strong_em n"
  unfolding skips_def
proof (intro allI impI)
  fix k :: nat and q :: "nat option" and rest :: jsstring
  assume n: "n < 3"
  assume a: "0 < k \<and> k \<le> n \<and> (rest = [] \<or> \<not> is_char CHR ''*'' (hd rest))
       \<and> (k < n \<longrightarrow> q = Some (42))"
  from a have "length (takeWhile (is_char CHR ''*'') (stars k @ rest)) = k"
    by (intro run_of_stars) simp
  then show "rmatch re_strong_em q (stars k @ rest) = None"
    using a n by (intro strong_em_short) simp
qed

lemma skips_strong: "n < 2 \<Longrightarrow> skips re_strong n"
  unfolding skips_def
proof (intro allI impI)
  fix k :: nat and q :: "nat option" and rest :: jsstring
  assume n: "n < 2"
  assume a: "0 < k \<and> k \<le> n \<and> (rest = [] \<or> \<not> is_char CHR ''*'' (hd rest))
       \<and> (k < n \<longrightarrow> q = Some (42))"
  from a have "length (takeWhile (is_char CHR ''*'') (stars k @ rest)) = k"
    by (intro run_of_stars) simp
  then show "rmatch re_strong q (stars k @ rest) = None"
    using a n by (intro strong_short) simp
qed

lemma skips_em: "2 \<le> n \<Longrightarrow> skips re_em n"
  unfolding skips_def
proof (intro allI impI)
  fix k :: nat and q :: "nat option" and rest :: jsstring
  assume a: "0 < k \<and> k \<le> n \<and> (rest = [] \<or> \<not> is_char CHR ''*'' (hd rest))
       \<and> (k < n \<longrightarrow> q = Some (42))"
  assume n: "2 \<le> n"
  show "rmatch re_em q (stars k @ rest) = None"
  proof (cases "k < n")
    case True
    then show ?thesis using a by (simp add: em_behind)
  next
    case False
    then have "2 \<le> k" using a n by simp
    then obtain j where "k = 2 + j" using le_Suc_ex by blast
    then show ?thesis by (simp add: stars_def em_ahead)
  qed
qed

lemma replace_copy:
  "rmatch r p (c # cs) = None \<Longrightarrow>
     replace_all_from r T p (c # cs) = c # replace_all_from r T (Some c) cs"
  by simp

lemma replace_match:
  "rmatch r p s = Some ms \<Longrightarrow> concat ms \<noteq> [] \<Longrightarrow> s \<noteq> [] \<Longrightarrow>
     replace_all_from r T p s
       = subst r T ms @ replace_all_from r T (Some (s ! (length (concat ms) - 1)))
           (drop (length (concat ms)) s)"
  by (cases s) (auto simp add: Let_def)

lemma replace_skip:
  assumes "starts_with_star r" "no_star t"
  shows "replace_all_from r T p (t @ s)
     = t @ replace_all_from r T (if t = [] then p else Some (last t)) s"
  using assms(2)
proof (induction t arbitrary: p)
  case Nil
  show ?case by simp
next
  case (Cons c t)
  have "rmatch r p (c # t @ s) = None"
    using assms(1) Cons.prems by (simp add: starts_with_star_def no_star_def)
  then have "replace_all_from r T p ((c # t) @ s) = c # replace_all_from r T (Some c) (t @ s)"
    by simp
  also have "\<dots> = c # t @ replace_all_from r T (if t = [] then Some c else Some (last t)) s"
    using Cons.IH [of "Some c"] Cons.prems by (simp add: no_star_def)
  finally show ?case by simp
qed

lemma skipsD:
  "skips r n \<Longrightarrow> 0 < k \<Longrightarrow> k \<le> n \<Longrightarrow> rest = [] \<or> \<not> is_char CHR ''*'' (hd rest) \<Longrightarrow>
     (k < n \<longrightarrow> q = Some 42) \<Longrightarrow> rmatch r q (stars k @ rest) = None"
  by (simp add: skips_def)

lemma stars_Suc: "stars (Suc k) @ rest = 42 # (stars k @ rest)"
  by (simp add: stars_def)

lemma replace_skip_stars:
  assumes sk: "skips r n" and rest: "rest = [] \<or> \<not> is_char CHR ''*'' (hd rest)"
  shows "k \<le> n \<Longrightarrow> (0 < k \<Longrightarrow> k < n \<Longrightarrow> q = Some 42) \<Longrightarrow>
     replace_all_from r T q (stars k @ rest)
       = (if k = 0 then replace_all_from r T q rest
          else stars k @ replace_all_from r T (Some 42) rest)"
proof (induction k arbitrary: q)
  case 0
  show ?case by (simp add: stars_def)
next
  case (Suc k)
  have "rmatch r q (stars (Suc k) @ rest) = None"
    using Suc.prems by (intro skipsD [OF sk _ _ rest]) simp_all
  then have none: "rmatch r q (42 # (stars k @ rest)) = None"
    by (simp only: stars_Suc)
  have step: "replace_all_from r T q (stars (Suc k) @ rest)
      = 42 # replace_all_from r T (Some 42) (stars k @ rest)"
    unfolding stars_Suc by (rule replace_copy [OF none])
  have ih: "replace_all_from r T (Some 42) (stars k @ rest)
      = (if k = 0 then replace_all_from r T (Some 42) rest
          else stars k @ replace_all_from r T (Some 42) rest)"
    using Suc.prems by (intro Suc.IH) simp_all
  show ?case
    unfolding step ih by (simp add: stars_def)
qed

lemma emph_text_parts:
  "emph_text x \<Longrightarrow> x \<noteq> [] \<and> no_star x \<and> \<not> is_char CHR ''*'' (hd x)"
  by (cases x) (auto simp add: emph_text_def no_star_def)

text \<open>A run of another kind is copied.\<close>

lemma replace_skip_run:
  assumes sk: "skips r n" and st: "starts_with_star r" and n: "0 < n" and x: "emph_text x"
    and rest: "rest = [] \<or> \<not> is_char CHR ''*'' (hd rest)"
  shows "replace_all_from r T q (stars n @ x @ stars n @ rest)
     = stars n @ x @ stars n @ replace_all_from r T (Some (42)) rest"
proof -
  have hd1: "x @ stars n @ rest = [] \<or> \<not> is_char CHR ''*'' (hd (x @ stars n @ rest))"
    using emph_text_parts [OF x] by (simp add: hd_append)
  have "replace_all_from r T q (stars n @ x @ stars n @ rest)
      = stars n @ replace_all_from r T (Some (42)) (x @ stars n @ rest)"
    using replace_skip_stars [OF sk hd1, of n q T] n by simp
  also have "replace_all_from r T (Some (42)) (x @ stars n @ rest)
      = x @ replace_all_from r T (Some (last x)) (stars n @ rest)"
    using replace_skip [OF st, of x T _ "stars n @ rest"] emph_text_parts [OF x] by simp
  also have "replace_all_from r T (Some (last x)) (stars n @ rest)
      = stars n @ replace_all_from r T (Some (42)) rest"
    using replace_skip_stars [OF sk rest, of n "Some (last x)" T] n by simp
  finally show ?thesis by simp
qed

subsection \<open>The three passes over a well-formed line\<close>

lemma source_Nil: "source [] = []"
  by (simp add: source_def)

lemma source_Cons: "source (s # d) = seg_source s @ source d"
  by (simp add: source_def)

lemma seg_source_stars:
  "seg_source (Italic x) = stars 1 @ x @ stars 1"
  "seg_source (Bold x) = stars 2 @ x @ stars 2"
  "seg_source (BoldItalic x) = stars 3 @ x @ stars 3"
  by (simp_all add: stars_def js_def numeral_2_eq_2 numeral_3_eq_3)

lemma separated_mono: "separated a d \<Longrightarrow> (a \<longrightarrow> b) \<Longrightarrow> separated b d"
proof (induction d arbitrary: a b)
  case Nil
  show ?case by simp
next
  case (Cons s d)
  then show ?case by (cases s) auto
qed

lemma separated_head:
  "list_all seg_ok d \<Longrightarrow> separated False d \<Longrightarrow>
     source d = [] \<or> \<not> is_char CHR ''*'' (hd (source d))"
proof (induction d)
  case Nil
  show ?case by (simp add: source_Nil)
next
  case (Cons s d)
  show ?case
  proof (cases s)
    case (Plain t)
    show ?thesis
    proof (cases t)
      case Nil
      then show ?thesis using Cons Plain by (simp add: source_Cons)
    next
      case (Cons c cs)
      then show ?thesis using Cons.prems Plain by (simp add: source_Cons no_star_def)
    qed
  qed (use Cons.prems in simp_all)
qed

lemma replace_nothing: "starts_with_star r \<Longrightarrow> replace_all_from r T p [] = []"
  by (simp add: starts_with_star_def)

lemma drop_wrapped:
  assumes "length a + length b = k"
  shows "drop (length x + k) (a @ x @ b @ rest) = rest"
proof -
  have e: "length x + k = length (a @ x @ b)" using assms by simp
  show ?thesis unfolding e by (metis append.assoc append_eq_conv_conj)
qed

lemma rewrite_strong_em:
  assumes x: "emph_text x"
  shows "replace_all_from re_strong_em
       [Lit (js ''<strong><em>''), Group1, Lit (js ''</em></strong>'')] q
       (stars 3 @ x @ stars 3 @ rest)
     = seg_html (BoldItalic x) @ replace_all_from re_strong_em
       [Lit (js ''<strong><em>''), Group1, Lit (js ''</em></strong>'')] (Some 42) rest"
proof -
  let ?s = "js ''***'' @ x @ js ''***'' @ rest"
  let ?ms = "[js ''***'', x, js ''***'']"
  have s: "stars 3 @ x @ stars 3 @ rest = ?s"
    by (simp add: stars_def js_def numeral_3_eq_3)
  have m: "rmatch re_strong_em q ?s = Some ?ms"
    by (rule strong_em_match [OF x])
  have len: "length (concat ?ms) = length x + 6" by (simp add: js_def)
  have dr: "drop (length x + 6) ?s = rest" by (rule drop_wrapped) (simp add: js_def)
  have lst: "?s ! (length x + 6 - 1) = 42" by (simp add: js_def nth_append nth_Cons')
  have sb: "subst re_strong_em [Lit (js ''<strong><em>''), Group1, Lit (js ''</em></strong>'')] ?ms
      = seg_html (BoldItalic x)"
    by (simp add: subst_def group1_def re_strong_em_def)
  have "replace_all_from re_strong_em [Lit (js ''<strong><em>''), Group1, Lit (js ''</em></strong>'')] q ?s
      = subst re_strong_em [Lit (js ''<strong><em>''), Group1, Lit (js ''</em></strong>'')] ?ms
        @ replace_all_from re_strong_em [Lit (js ''<strong><em>''), Group1, Lit (js ''</em></strong>'')] (Some (?s ! (length (concat ?ms) - 1)))
            (drop (length (concat ?ms)) ?s)"
    by (rule replace_match [OF m]) (simp_all add: js_def)
  then show ?thesis
    by (simp only: s len dr lst sb)
qed

lemma rewrite_strong:
  assumes x: "emph_text x"
  shows "replace_all_from re_strong
       [Lit (js ''<strong>''), Group1, Lit (js ''</strong>'')] q
       (stars 2 @ x @ stars 2 @ rest)
     = seg_html (Bold x) @ replace_all_from re_strong
       [Lit (js ''<strong>''), Group1, Lit (js ''</strong>'')] (Some 42) rest"
proof -
  let ?s = "js ''**'' @ x @ js ''**'' @ rest"
  let ?ms = "[js ''**'', x, js ''**'']"
  have s: "stars 2 @ x @ stars 2 @ rest = ?s"
    by (simp add: stars_def js_def numeral_2_eq_2)
  have m: "rmatch re_strong q ?s = Some ?ms"
    by (rule strong_match [OF x])
  have len: "length (concat ?ms) = length x + 4" by (simp add: js_def)
  have dr: "drop (length x + 4) ?s = rest" by (rule drop_wrapped) (simp add: js_def)
  have lst: "?s ! (length x + 4 - 1) = 42" by (simp add: js_def nth_append nth_Cons')
  have sb: "subst re_strong [Lit (js ''<strong>''), Group1, Lit (js ''</strong>'')] ?ms
      = seg_html (Bold x)"
    by (simp add: subst_def group1_def re_strong_def)
  have "replace_all_from re_strong [Lit (js ''<strong>''), Group1, Lit (js ''</strong>'')] q ?s
      = subst re_strong [Lit (js ''<strong>''), Group1, Lit (js ''</strong>'')] ?ms
        @ replace_all_from re_strong [Lit (js ''<strong>''), Group1, Lit (js ''</strong>'')] (Some (?s ! (length (concat ?ms) - 1)))
            (drop (length (concat ?ms)) ?s)"
    by (rule replace_match [OF m]) (simp_all add: js_def)
  then show ?thesis
    by (simp only: s len dr lst sb)
qed

lemma rewrite_em:
  assumes x: "emph_text x" and q: "q \<noteq> Some 42"
    and rest: "rest = [] \<or> \<not> is_char CHR ''*'' (hd rest)"
  shows "replace_all_from re_em
       [Lit (js ''<em>''), Group1, Lit (js ''</em>'')] q
       (stars 1 @ x @ stars 1 @ rest)
     = seg_html (Italic x) @ replace_all_from re_em
       [Lit (js ''<em>''), Group1, Lit (js ''</em>'')] (Some 42) rest"
proof -
  let ?s = "js ''*'' @ x @ js ''*'' @ rest"
  let ?ms = "[[], js ''*'', [], x, [], js ''*'', []]"
  have s: "stars 1 @ x @ stars 1 @ rest = ?s"
    by (simp add: stars_def js_def)
  have m: "rmatch re_em q ?s = Some ?ms"
    by (rule em_match [OF x q rest])
  have len: "length (concat ?ms) = length x + 2" by (simp add: js_def)
  have dr: "drop (length x + 2) ?s = rest" by (rule drop_wrapped) (simp add: js_def)
  have lst: "?s ! (length x + 2 - 1) = 42" by (simp add: js_def nth_append nth_Cons')
  have sb: "subst re_em [Lit (js ''<em>''), Group1, Lit (js ''</em>'')] ?ms
      = seg_html (Italic x)"
    by (simp add: subst_def group1_def re_em_def)
  have "replace_all_from re_em [Lit (js ''<em>''), Group1, Lit (js ''</em>'')] q ?s
      = subst re_em [Lit (js ''<em>''), Group1, Lit (js ''</em>'')] ?ms
        @ replace_all_from re_em [Lit (js ''<em>''), Group1, Lit (js ''</em>'')] (Some (?s ! (length (concat ?ms) - 1)))
            (drop (length (concat ?ms)) ?s)"
    by (rule replace_match [OF m]) (simp_all add: js_def)
  then show ?thesis
    by (simp only: s len dr lst sb)
qed

subsection \<open>The pass of each inline pattern\<close>

lemma pass_strong_em:
  assumes "list_all seg_ok d"
    and "separated ok d"
  shows "replace_all_from re_strong_em [Lit (js ''<strong><em>''), Group1, Lit (js ''</em></strong>'')] p (source d) = source (map bold_italic_done d)"
  using assms
proof (induction d arbitrary: ok p)
  case Nil
  show ?case by (simp only: source_Nil list.map replace_nothing [OF starts_strong_em])
next
  case (Cons s d)
  have okd: "list_all seg_ok d" using Cons.prems by simp
  show ?case
  proof (cases s)
    case (Plain t)
    have t: "no_star t" using Cons.prems Plain by simp
    have sep: "separated (ok \<or> t \<noteq> []) d" using Cons.prems Plain by simp
    have "replace_all_from re_strong_em [Lit (js ''<strong><em>''), Group1, Lit (js ''</em></strong>'')] p (source (Plain t # d))
        = t @ replace_all_from re_strong_em [Lit (js ''<strong><em>''), Group1, Lit (js ''</em></strong>'')] (if t = [] then p else Some (last t)) (source d)"
      by (simp only: source_Cons seg_source.simps replace_skip [OF starts_strong_em t])
    also have "\<dots> = t @ source (map bold_italic_done d)"
      by (simp only: Cons.IH [OF okd sep])
    also have "\<dots> = source (map bold_italic_done (Plain t # d))"
      by (simp only: list.map bold_italic_done.simps source_Cons seg_source.simps)
    finally show ?thesis unfolding Plain .
  next
    case (Italic x)
    have x: "emph_text x" and ok: ok and sep: "separated False d"
      using Cons.prems Italic by simp_all
    have hd: "source d = [] \<or> \<not> is_char CHR ''*'' (hd (source d))"
      by (rule separated_head [OF okd sep])
    have "replace_all_from re_strong_em [Lit (js ''<strong><em>''), Group1, Lit (js ''</em></strong>'')] p (source (Italic x # d))
        = replace_all_from re_strong_em [Lit (js ''<strong><em>''), Group1, Lit (js ''</em></strong>'')] p (stars 1 @ x @ stars 1 @ source d)"
      by (simp only: source_Cons seg_source_stars append_assoc)
    also have "\<dots> = stars 1 @ x @ stars 1 @ replace_all_from re_strong_em [Lit (js ''<strong><em>''), Group1, Lit (js ''</em></strong>'')] (Some 42) (source d)"
      by (rule replace_skip_run [OF skips_strong_em starts_strong_em _ x hd]) simp_all
    also have "\<dots> = stars 1 @ x @ stars 1 @ source (map bold_italic_done d)"
      by (simp only: Cons.IH [OF okd sep])
    also have "\<dots> = source (map bold_italic_done (Italic x # d))"
      by (simp only: list.map bold_italic_done.simps source_Cons seg_source_stars append_assoc)
    finally show ?thesis unfolding Italic .
  next
    case (Bold x)
    have x: "emph_text x" and ok: ok and sep: "separated False d"
      using Cons.prems Bold by simp_all
    have hd: "source d = [] \<or> \<not> is_char CHR ''*'' (hd (source d))"
      by (rule separated_head [OF okd sep])
    have "replace_all_from re_strong_em [Lit (js ''<strong><em>''), Group1, Lit (js ''</em></strong>'')] p (source (Bold x # d))
        = replace_all_from re_strong_em [Lit (js ''<strong><em>''), Group1, Lit (js ''</em></strong>'')] p (stars 2 @ x @ stars 2 @ source d)"
      by (simp only: source_Cons seg_source_stars append_assoc)
    also have "\<dots> = stars 2 @ x @ stars 2 @ replace_all_from re_strong_em [Lit (js ''<strong><em>''), Group1, Lit (js ''</em></strong>'')] (Some 42) (source d)"
      by (rule replace_skip_run [OF skips_strong_em starts_strong_em _ x hd]) simp_all
    also have "\<dots> = stars 2 @ x @ stars 2 @ source (map bold_italic_done d)"
      by (simp only: Cons.IH [OF okd sep])
    also have "\<dots> = source (map bold_italic_done (Bold x # d))"
      by (simp only: list.map bold_italic_done.simps source_Cons seg_source_stars append_assoc)
    finally show ?thesis unfolding Bold .
  next
    case (BoldItalic x)
    have x: "emph_text x" and ok: ok and sep: "separated False d"
      using Cons.prems BoldItalic by simp_all
    have hd: "source d = [] \<or> \<not> is_char CHR ''*'' (hd (source d))"
      by (rule separated_head [OF okd sep])
    have "replace_all_from re_strong_em [Lit (js ''<strong><em>''), Group1, Lit (js ''</em></strong>'')] p (source (BoldItalic x # d))
        = replace_all_from re_strong_em [Lit (js ''<strong><em>''), Group1, Lit (js ''</em></strong>'')] p (stars 3 @ x @ stars 3 @ source d)"
      by (simp only: source_Cons seg_source_stars append_assoc)
    also have "\<dots> = seg_html (BoldItalic x) @ replace_all_from re_strong_em [Lit (js ''<strong><em>''), Group1, Lit (js ''</em></strong>'')] (Some 42) (source d)"
      by (rule rewrite_strong_em [OF x])
    also have "\<dots> = seg_html (BoldItalic x) @ source (map bold_italic_done d)"
      by (simp only: Cons.IH [OF okd sep])
    also have "\<dots> = source (map bold_italic_done (BoldItalic x # d))"
      by (simp only: list.map bold_italic_done.simps source_Cons seg_source.simps)
    finally show ?thesis unfolding BoldItalic .
  qed
qed

lemma pass_strong:
  assumes "list_all seg_ok d"
    and "separated ok d"
    and "\<And>x. BoldItalic x \<notin> set d"
  shows "replace_all_from re_strong [Lit (js ''<strong>''), Group1, Lit (js ''</strong>'')] p (source d) = source (map bold_done d)"
  using assms
proof (induction d arbitrary: ok p)
  case Nil
  show ?case by (simp only: source_Nil list.map replace_nothing [OF starts_strong])
next
  case (Cons s d)
  have okd: "list_all seg_ok d" using Cons.prems by simp
  have nob: "\<And>x. BoldItalic x \<notin> set d" using Cons.prems by simp
  show ?case
  proof (cases s)
    case (Plain t)
    have t: "no_star t" using Cons.prems Plain by simp
    have sep: "separated (ok \<or> t \<noteq> []) d" using Cons.prems Plain by simp
    have "replace_all_from re_strong [Lit (js ''<strong>''), Group1, Lit (js ''</strong>'')] p (source (Plain t # d))
        = t @ replace_all_from re_strong [Lit (js ''<strong>''), Group1, Lit (js ''</strong>'')] (if t = [] then p else Some (last t)) (source d)"
      by (simp only: source_Cons seg_source.simps replace_skip [OF starts_strong t])
    also have "\<dots> = t @ source (map bold_done d)"
      by (simp only: Cons.IH [OF okd sep nob])
    also have "\<dots> = source (map bold_done (Plain t # d))"
      by (simp only: list.map bold_done.simps source_Cons seg_source.simps)
    finally show ?thesis unfolding Plain .
  next
    case (Italic x)
    have x: "emph_text x" and ok: ok and sep: "separated False d"
      using Cons.prems Italic by simp_all
    have hd: "source d = [] \<or> \<not> is_char CHR ''*'' (hd (source d))"
      by (rule separated_head [OF okd sep])
    have "replace_all_from re_strong [Lit (js ''<strong>''), Group1, Lit (js ''</strong>'')] p (source (Italic x # d))
        = replace_all_from re_strong [Lit (js ''<strong>''), Group1, Lit (js ''</strong>'')] p (stars 1 @ x @ stars 1 @ source d)"
      by (simp only: source_Cons seg_source_stars append_assoc)
    also have "\<dots> = stars 1 @ x @ stars 1 @ replace_all_from re_strong [Lit (js ''<strong>''), Group1, Lit (js ''</strong>'')] (Some 42) (source d)"
      by (rule replace_skip_run [OF skips_strong starts_strong _ x hd]) simp_all
    also have "\<dots> = stars 1 @ x @ stars 1 @ source (map bold_done d)"
      by (simp only: Cons.IH [OF okd sep nob])
    also have "\<dots> = source (map bold_done (Italic x # d))"
      by (simp only: list.map bold_done.simps source_Cons seg_source_stars append_assoc)
    finally show ?thesis unfolding Italic .
  next
    case (Bold x)
    have x: "emph_text x" and ok: ok and sep: "separated False d"
      using Cons.prems Bold by simp_all
    have hd: "source d = [] \<or> \<not> is_char CHR ''*'' (hd (source d))"
      by (rule separated_head [OF okd sep])
    have "replace_all_from re_strong [Lit (js ''<strong>''), Group1, Lit (js ''</strong>'')] p (source (Bold x # d))
        = replace_all_from re_strong [Lit (js ''<strong>''), Group1, Lit (js ''</strong>'')] p (stars 2 @ x @ stars 2 @ source d)"
      by (simp only: source_Cons seg_source_stars append_assoc)
    also have "\<dots> = seg_html (Bold x) @ replace_all_from re_strong [Lit (js ''<strong>''), Group1, Lit (js ''</strong>'')] (Some 42) (source d)"
      by (rule rewrite_strong [OF x])
    also have "\<dots> = seg_html (Bold x) @ source (map bold_done d)"
      by (simp only: Cons.IH [OF okd sep nob])
    also have "\<dots> = source (map bold_done (Bold x # d))"
      by (simp only: list.map bold_done.simps source_Cons seg_source.simps)
    finally show ?thesis unfolding Bold .
  next
    case (BoldItalic x)
    then show ?thesis using Cons.prems(3) [of x] by simp
  qed
qed

lemma pass_em:
  assumes "list_all seg_ok d"
    and "separated ok d"
    and "ok \<longrightarrow> p \<noteq> Some 42"
  shows "replace_all_from re_em [Lit (js ''<em>''), Group1, Lit (js ''</em>'')] p (source d) = source (map italic_done d)"
  using assms
proof (induction d arbitrary: ok p)
  case Nil
  show ?case by (simp only: source_Nil list.map replace_nothing [OF starts_em])
next
  case (Cons s d)
  have okd: "list_all seg_ok d" using Cons.prems by simp
  show ?case
  proof (cases s)
    case (Plain t)
    have t: "no_star t" using Cons.prems Plain by simp
    have sep: "separated (ok \<or> t \<noteq> []) d" using Cons.prems Plain by simp
    have inv: "ok \<or> t \<noteq> [] \<longrightarrow> (if t = [] then p else Some (last t)) \<noteq> Some 42"
    proof (cases t)
      case Nil
      then show ?thesis using Cons.prems by simp
    next
      case (Cons c cs)
      then have "last t \<in> set t" by simp
      then have "last t \<noteq> 42" using t by (auto simp add: no_star_def list_all_iff is_char_def)
      then show ?thesis using Cons by simp
    qed
    have "replace_all_from re_em [Lit (js ''<em>''), Group1, Lit (js ''</em>'')] p (source (Plain t # d))
        = t @ replace_all_from re_em [Lit (js ''<em>''), Group1, Lit (js ''</em>'')] (if t = [] then p else Some (last t)) (source d)"
      by (simp only: source_Cons seg_source.simps replace_skip [OF starts_em t])
    also have "\<dots> = t @ source (map italic_done d)"
      by (simp only: Cons.IH [OF okd sep inv])
    also have "\<dots> = source (map italic_done (Plain t # d))"
      by (simp only: list.map italic_done.simps source_Cons seg_source.simps)
    finally show ?thesis unfolding Plain .
  next
    case (Italic x)
    have x: "emph_text x" and ok: ok and sep: "separated False d"
      using Cons.prems Italic by simp_all
    have hd: "source d = [] \<or> \<not> is_char CHR ''*'' (hd (source d))"
      by (rule separated_head [OF okd sep])
    have inv: "False \<longrightarrow> Some 42 \<noteq> Some (42::nat)" by simp
    have "replace_all_from re_em [Lit (js ''<em>''), Group1, Lit (js ''</em>'')] p (source (Italic x # d))
        = replace_all_from re_em [Lit (js ''<em>''), Group1, Lit (js ''</em>'')] p (stars 1 @ x @ stars 1 @ source d)"
      by (simp only: source_Cons seg_source_stars append_assoc)
    also have "\<dots> = seg_html (Italic x) @ replace_all_from re_em [Lit (js ''<em>''), Group1, Lit (js ''</em>'')] (Some 42) (source d)"
      using Cons.prems ok by (intro rewrite_em x hd) simp
    also have "\<dots> = seg_html (Italic x) @ source (map italic_done d)"
      by (simp only: Cons.IH [OF okd sep inv])
    also have "\<dots> = source (map italic_done (Italic x # d))"
      by (simp only: list.map italic_done.simps source_Cons seg_source.simps)
    finally show ?thesis unfolding Italic .
  next
    case (Bold x)
    have x: "emph_text x" and ok: ok and sep: "separated False d"
      using Cons.prems Bold by simp_all
    have hd: "source d = [] \<or> \<not> is_char CHR ''*'' (hd (source d))"
      by (rule separated_head [OF okd sep])
    have inv: "False \<longrightarrow> Some 42 \<noteq> Some (42::nat)" by simp
    have "replace_all_from re_em [Lit (js ''<em>''), Group1, Lit (js ''</em>'')] p (source (Bold x # d))
        = replace_all_from re_em [Lit (js ''<em>''), Group1, Lit (js ''</em>'')] p (stars 2 @ x @ stars 2 @ source d)"
      by (simp only: source_Cons seg_source_stars append_assoc)
    also have "\<dots> = stars 2 @ x @ stars 2 @ replace_all_from re_em [Lit (js ''<em>''), Group1, Lit (js ''</em>'')] (Some 42) (source d)"
      by (rule replace_skip_run [OF skips_em starts_em _ x hd]) simp_all
    also have "\<dots> = stars 2 @ x @ stars 2 @ source (map italic_done d)"
      by (simp only: Cons.IH [OF okd sep inv])
    also have "\<dots> = source (map italic_done (Bold x # d))"
      by (simp only: list.map italic_done.simps source_Cons seg_source_stars append_assoc)
    finally show ?thesis unfolding Bold .
  next
    case (BoldItalic x)
    have x: "emph_text x" and ok: ok and sep: "separated False d"
      using Cons.prems BoldItalic by simp_all
    have hd: "source d = [] \<or> \<not> is_char CHR ''*'' (hd (source d))"
      by (rule separated_head [OF okd sep])
    have inv: "False \<longrightarrow> Some 42 \<noteq> Some (42::nat)" by simp
    have "replace_all_from re_em [Lit (js ''<em>''), Group1, Lit (js ''</em>'')] p (source (BoldItalic x # d))
        = replace_all_from re_em [Lit (js ''<em>''), Group1, Lit (js ''</em>'')] p (stars 3 @ x @ stars 3 @ source d)"
      by (simp only: source_Cons seg_source_stars append_assoc)
    also have "\<dots> = stars 3 @ x @ stars 3 @ replace_all_from re_em [Lit (js ''<em>''), Group1, Lit (js ''</em>'')] (Some 42) (source d)"
      by (rule replace_skip_run [OF skips_em starts_em _ x hd]) simp_all
    also have "\<dots> = stars 3 @ x @ stars 3 @ source (map italic_done d)"
      by (simp only: Cons.IH [OF okd sep inv])
    also have "\<dots> = source (map italic_done (BoldItalic x # d))"
      by (simp only: list.map italic_done.simps source_Cons seg_source_stars append_assoc)
    finally show ?thesis unfolding BoldItalic .
  qed
qed

subsection \<open>A well-formed line through the three passes\<close>

lemma html_plain:
  "emph_text x \<Longrightarrow> no_star (seg_html (Italic x)) \<and> no_star (seg_html (Bold x))
     \<and> no_star (seg_html (BoldItalic x))"
  by (simp add: emph_text_def no_star_def js_def is_char_def)

lemma seg_ok_done:
  "seg_ok s \<Longrightarrow> seg_ok (bold_italic_done s) \<and> seg_ok (bold_done s) \<and> seg_ok (italic_done s)"
  using html_plain by (cases s) simp_all

lemma list_all_seg_ok_done:
  "list_all seg_ok d \<Longrightarrow> list_all seg_ok (map bold_italic_done d)
     \<and> list_all seg_ok (map bold_done d) \<and> list_all seg_ok (map italic_done d)"
  using seg_ok_done by (simp add: list_all_iff)

lemma separated_map:
  assumes f: "\<And>s. f s = s \<or> (\<exists>h. h \<noteq> [] \<and> f s = Plain h)"
  shows "separated ok d \<Longrightarrow> separated ok (map f d)"
proof (induction d arbitrary: ok)
  case Nil
  show ?case by simp
next
  case (Cons s d)
  have tail: "separated True (map f d)"
  proof (cases s)
    case (Plain t)
    then have "separated (ok \<or> t \<noteq> []) (map f d)" using Cons by simp
    then show ?thesis by (rule separated_mono) simp
  next
    case (Italic x)
    then have "separated False (map f d)" using Cons by simp
    then show ?thesis by (rule separated_mono) simp
  next
    case (Bold x)
    then have "separated False (map f d)" using Cons by simp
    then show ?thesis by (rule separated_mono) simp
  next
    case (BoldItalic x)
    then have "separated False (map f d)" using Cons by simp
    then show ?thesis by (rule separated_mono) simp
  qed
  from f [of s] show ?case
  proof
    assume "f s = s"
    then show ?thesis using Cons by (cases s) simp_all
  next
    assume "\<exists>h. h \<noteq> [] \<and> f s = Plain h"
    then show ?thesis using tail by auto
  qed
qed

lemma html_not_empty: "seg_html (Italic x) \<noteq> [] \<and> seg_html (Bold x) \<noteq> []
     \<and> seg_html (BoldItalic x) \<noteq> []"
  by (simp add: js_def)

lemma separated_done:
  "separated ok d \<Longrightarrow> separated ok (map bold_italic_done d)
     \<and> separated ok (map bold_done d) \<and> separated ok (map italic_done d)"
proof -
  assume s: "separated ok d"
  have 1: "bold_italic_done s = s \<or> (\<exists>h. h \<noteq> [] \<and> bold_italic_done s = Plain h)" for s
    using html_not_empty by (cases s) simp_all
  have 2: "bold_done s = s \<or> (\<exists>h. h \<noteq> [] \<and> bold_done s = Plain h)" for s
    using html_not_empty by (cases s) simp_all
  have 3: "italic_done s = s \<or> (\<exists>h. h \<noteq> [] \<and> italic_done s = Plain h)" for s
    using html_not_empty by (cases s) simp_all
  show ?thesis
    using separated_map [of bold_italic_done, OF 1 s] separated_map [of bold_done, OF 2 s]
      separated_map [of italic_done, OF 3 s] by simp
qed

lemma no_bold_italic_left: "BoldItalic x \<notin> set (map bold_italic_done d)"
proof (induction d)
  case Nil
  show ?case by simp
next
  case (Cons s d)
  then show ?case by (cases s) simp_all
qed

lemma all_done_html:
  "source (map italic_done (map bold_done (map bold_italic_done d))) = html_of d"
proof (induction d)
  case Nil
  show ?case by (simp add: source_def html_of_def)
next
  case (Cons s d)
  then show ?case by (cases s) (simp_all add: source_def html_of_def)
qed

lemma inline_html_source:
  assumes "well_formed d"
  shows "inline_html (source d) = html_of d"
proof -
  let ?d1 = "map bold_italic_done d"
  let ?d2 = "map bold_done ?d1"
  have ok: "list_all seg_ok d" and sep: "separated True d"
    using assms by (simp_all add: well_formed_def)
  have ok1: "list_all seg_ok ?d1" and sep1: "separated True ?d1"
    using list_all_seg_ok_done [OF ok] separated_done [OF sep] by simp_all
  have ok2: "list_all seg_ok ?d2" and sep2: "separated True ?d2"
    using list_all_seg_ok_done [OF ok1] separated_done [OF sep1] by simp_all
  have p1: "replace_all re_strong_em
      [Lit (js ''<strong><em>''), Group1, Lit (js ''</em></strong>'')] (source d) = source ?d1"
    unfolding replace_all_def by (rule pass_strong_em [OF ok sep])
  have p2: "replace_all re_strong
      [Lit (js ''<strong>''), Group1, Lit (js ''</strong>'')] (source ?d1) = source ?d2"
    unfolding replace_all_def by (rule pass_strong [OF ok1 sep1 no_bold_italic_left])
  have p3: "replace_all re_em
      [Lit (js ''<em>''), Group1, Lit (js ''</em>'')] (source ?d2) = source (map italic_done ?d2)"
    unfolding replace_all_def by (rule pass_em [OF ok2 sep2]) simp
  show ?thesis
    unfolding inline_html_def p1 p2 p3 by (rule all_done_html)
qed


lemma inline_html_plain: "no_star t \<Longrightarrow> inline_html t = t"
  using inline_html_source [of "[Plain t]"]
  by (simp add: well_formed_def source_def html_of_def)

subsection \<open>The card preview\<close>





lemma heading_not_others: "is_heading t \<Longrightarrow> \<not> is_bullet t \<and> \<not> is_numbered t"
proof -
  assume "is_heading t"
  then obtain c cs where t: "t = c # cs" and c: "is_char CHR ''#'' c"
    by (cases t) (auto simp add: is_heading_def hashes_def split: if_splits)
  have "digits t = 0" using t c by (auto simp add: digits_def is_digit_def is_char_def)
  then show ?thesis using t c
    by (auto simp add: is_bullet_def is_numbered_def one_of_def js_def is_char_def
         split: list.splits)
qed

lemma bullet_not_numbered: "is_bullet t \<Longrightarrow> \<not> is_numbered t"
proof -
  assume "is_bullet t"
  then obtain c cs where t: "t = c # cs" and c: "one_of ''-*'' c"
    by (cases t) (auto simp add: is_bullet_def split: list.splits)
  have "digits t = 0" using t c by (auto simp add: digits_def is_digit_def one_of_def js_def)
  then show ?thesis by (simp add: is_numbered_def)
qed

lemma trim_empty: "(trim line = []) = (\<forall>c\<in>set line. is_space c)"
proof -
  have a: "(trim line = []) = (\<forall>x\<in>set (dropWhile is_space line). is_space x)"
    by (simp add: trim_def dropWhile_eq_Nil_conv)
  have b: "(\<forall>x\<in>set (dropWhile is_space line). is_space x) = (dropWhile is_space line = [])"
    by (metis hd_dropWhile list.set_sel(1) empty_iff list.set(1))
  have c: "(dropWhile is_space line = []) = (\<forall>x\<in>set line. is_space x)"
    by (simp add: dropWhile_eq_Nil_conv)
  show ?thesis using a b c by simp
qed

lemma many_hashes_paragraph:
  "5 \<le> hashes t \<Longrightarrow> spec_classify t = Paragraph (inline_html t)"
proof -
  assume h: "5 \<le> hashes t"
  then obtain c cs where t: "t = c # cs" and c: "is_char CHR ''#'' c"
    by (cases t) (auto simp add: hashes_def split: if_splits)
  have "digits t = 0" using t c by (auto simp add: digits_def is_digit_def is_char_def)
  then show ?thesis using h t c
    by (auto simp add: spec_classify_def is_heading_def is_bullet_def is_numbered_def one_of_def
         js_def is_char_def split: list.splits)
qed


subsection \<open>The file name\<close>

lemma rmatch_spaces:
  "rmatch re_spaces p s =
     (if s \<noteq> [] \<and> is_space (hd s) then Some [takeWhile is_space s] else None)"
  using run_pos [of is_space s] by (simp add: re_spaces_def rmatch_Rep_last take_run Suc_le_eq)

lemma replace_spaces: "replace_all_from re_spaces [Lit (js ''_'')] p s = squash s"
proof (induction s arbitrary: p rule: squash.induct)
  case 1
  show ?case by (simp add: rmatch_spaces)
next
  case (2 c cs)
  show ?case
  proof (cases "is_space c")
    case True
    have "drop (length (takeWhile is_space cs)) cs = dropWhile is_space cs"
      by (rule drop_run)
    then show ?thesis
      using True 2(1) [OF True] by (simp add: rmatch_spaces subst_def js_def Let_def)
  next
    case False
    then show ?thesis
      using 2(2) [OF False] by (simp add: rmatch_spaces)
  qed
qed

lemma underscore_not_space: "\<not> is_space 95"
  by (simp add: is_space_def)

lemma squash_no_space: "c \<in> set (squash s) \<Longrightarrow> \<not> is_space c"
proof (induction s rule: squash.induct)
  case 1
  then show ?case by simp
next
  case (2 x xs)
  show ?case
  proof (cases "is_space x")
    case True
    then have "c = 95 \<or> c \<in> set (squash (dropWhile is_space xs))" using 2(3) by simp
    then show ?thesis using 2(1) [OF True] underscore_not_space by blast
  next
    case False
    then have "c = x \<or> c \<in> set (squash xs)" using 2(3) by simp
    then show ?thesis using 2(2) [OF False] False by blast
  qed
qed

subsection \<open>The matches of the single-asterisk pattern\<close>





subsection \<open>Evaluation on concrete lines\<close>



lemma sort_key_empty_iff: "(sort_key f xs = []) = (xs = [])"
  by (metis length_0_conv length_sort)

lemma js_div_finite: "b \<noteq> 0 \<Longrightarrow> js_div a b = Num (real_of_int a / real_of_int b)"
  by (simp add: js_div_def)

subsection \<open>The card's cleaning of a well-formed line\<close>

















section \<open>Properties of the application\<close>

text \<open>
  C1. The full preview classifies the trimmed form of every line into exactly one kind of
  block, as the dialect prescribes: 1 to 4 \<open>#\<close> followed by white space give a heading
  whose level is the number of \<open>#\<close> and whose text is the remainder; \<open>-\<close> or
  \<open>*\<close> followed by white space gives a bullet item without its marker; digits, then
  \<open>.\<close> or \<open>)\<close>, then white space give a numbered item without its marker; a
  line of white space only is blank; every other line, also one with 5 or more \<open>#\<close>,
  is a paragraph. The three marked kinds exclude each other, and \<open>match(...)[1]\<close> never
  raises.
\<close>

theorem classify_line_dialect:
  "classify_line line = Inr (spec_classify (trim line))
   \<and> ((\<forall>c\<in>set line. is_space c) \<longrightarrow> classify_line line = Inr Blank)
   \<and> (5 \<le> hashes (trim line) \<longrightarrow>
        classify_line line = Inr (Paragraph (inline_html (trim line))))
   \<and> (is_heading t \<longrightarrow> \<not> is_bullet t \<and> \<not> is_numbered t)
   \<and> (is_bullet t \<longrightarrow> \<not> is_numbered t)"
proof -
  have blank: "(\<forall>c\<in>set line. is_space c) \<longrightarrow> classify_line line = Inr Blank"
    by (simp add: classify_line_spec trim_empty [symmetric] spec_classify_def)
  have many: "5 \<le> hashes (trim line) \<longrightarrow>
        classify_line line = Inr (Paragraph (inline_html (trim line)))"
    by (simp add: classify_line_spec many_hashes_paragraph)
  show ?thesis
    using classify_line_spec [of line] blank many heading_not_others [of t]
      bullet_not_numbered [of t] by blast
qed

theorem classify_line_dialect_witness:
  "classify_line (js '' ## Title '') = Inr (Heading 2 (js ''Title''))
   \<and> classify_line (js ''* item'') = Inr (BulletItem (js ''item''))
   \<and> classify_line (js ''12) item'') = Inr (NumberedItem (js ''item''))
   \<and> classify_line (js ''  '') = Inr Blank
   \<and> classify_line (js ''##### x'') = Inr (Paragraph (js ''##### x''))"
  using classify_line_dialect [of "js '' ## Title ''" "js ''## Title''"]
    classify_line_dialect [of "js ''* item''" "js ''* item''"]
    classify_line_dialect [of "js ''12) item''" "js ''12) item''"]
    classify_line_dialect [of "js ''  ''" "js ''* item''"]
    classify_line_dialect [of "js ''##### x''" "js ''* item''"]
    inline_html_plain [of "js ''##### x''"]
  by (simp add: js_def trim_def is_space_def spec_classify_def is_heading_def is_bullet_def
       is_numbered_def hashes_def digits_def is_char_def is_digit_def one_of_def no_star_def)







text \<open>
  C4. The export menu, the only caller of \<open>handleExport\<close>, is rendered only for a
  loaded book with at least one chapter. For a book with zero chapters the export engine
  answers \<open>ExportError\<close> and no bytes, the request is rejected, and the handler shows
  the failure and starts no download.
\<close>

theorem export_needs_chapters:
  "(can_export st \<longrightarrow>
      (\<exists>b. book st = Some b \<and> 0 < length (chapters_of b)) \<and> \<not> loading st \<and> \<not> previewMode st)
   \<and> (chapters_of b = []) = (b_chapters b = None \<or> b_chapters b = Some [])
   \<and> (chapters_of b = [] \<longrightarrow>
        export_engine serialize b f = Inl ExportError
        \<and> exportBook err serialize b f = Rejected err
        \<and> handleExport b f (exportBook err serialize b f)
            = [SetExporting True, ToastError (js ''Export failed: '' @ message err),
               SetExporting False])
   \<and> (\<forall>name bytes. Download name bytes \<notin> set (handleExport b f (Rejected err)))"
proof -
  have reach: "can_export st \<longrightarrow>
      (\<exists>b. book st = Some b \<and> 0 < length (chapters_of b)) \<and> \<not> loading st \<and> \<not> previewMode st"
    by (auto simp add: can_export_def render_def split: if_splits option.splits)
  have empty: "(chapters_of b = []) = (b_chapters b = None \<or> b_chapters b = Some [])"
    by (cases "b_chapters b") (simp_all add: chapters_of_def sort_key_empty_iff)
  have fail: "chapters_of b = [] \<longrightarrow>
        export_engine serialize b f = Inl ExportError
        \<and> exportBook err serialize b f = Rejected err
        \<and> handleExport b f (exportBook err serialize b f)
            = [SetExporting True, ToastError (js ''Export failed: '' @ message err),
               SetExporting False]"
    by (simp add: export_engine_def exportBook_def handleExport_def)
  have nodl: "\<forall>name bytes. Download name bytes \<notin> set (handleExport b f (Rejected err))"
    by (simp add: handleExport_def)
  show ?thesis
    using reach empty fail nodl by blast
qed

theorem export_needs_chapters_witness:
  "\<not> can_export \<lparr>loading = False,
       book = Some \<lparr>b_title = js ''T'', b_subtitle = None, b_language = js ''en'',
         b_status = js ''outline_ready'', b_chapters = Some [], b_outline = None\<rparr>,
       previewMode = False\<rparr>
   \<and> can_export \<lparr>loading = False,
       book = Some \<lparr>b_title = js ''T'', b_subtitle = None, b_language = js ''en'',
         b_status = js ''writing'',
         b_chapters = Some [\<lparr>chapter_number = 1, title = js ''One'', content = Some (js ''x''),
            image_url = None\<rparr>],
         b_outline = None\<rparr>,
       previewMode = False\<rparr>
   \<and> handleExport \<lparr>b_title = js ''T'', b_subtitle = None, b_language = js ''en'',
         b_status = js ''outline_ready'', b_chapters = Some [], b_outline = None\<rparr> (js ''pdf'')
       (exportBook \<lparr>detail = None, message = js ''400''\<rparr> (\<lambda>b f. [])
          \<lparr>b_title = js ''T'', b_subtitle = None, b_language = js ''en'',
            b_status = js ''outline_ready'', b_chapters = Some [], b_outline = None\<rparr> (js ''pdf''))
     = [SetExporting True, ToastError (js ''Export failed: 400''), SetExporting False]"
  using export_needs_chapters [of
      "\<lparr>loading = False,
       book = Some \<lparr>b_title = js ''T'', b_subtitle = None, b_language = js ''en'',
         b_status = js ''writing'',
         b_chapters = Some [\<lparr>chapter_number = 1, title = js ''One'', content = Some (js ''x''),
            image_url = None\<rparr>],
         b_outline = None\<rparr>,
       previewMode = False\<rparr>"
      "\<lparr>b_title = js ''T'', b_subtitle = None, b_language = js ''en'',
         b_status = js ''outline_ready'', b_chapters = Some [], b_outline = None\<rparr>"
      "\<lambda>b f. []" "js ''pdf''" "\<lparr>detail = None, message = js ''400''\<rparr>"]
  by (simp add: can_export_def render_def chapters_of_def js_def exportBook_def
      export_engine_def handleExport_def)

text \<open>
  C5. When the response of \<open>generateChapterImage\<close> carries no image URL (absent or
  empty), \<open>handleGenerateImage\<close> reports an error and does not refetch the book or
  announce success; the book is refetched and success announced if and only if the URL is
  present. A rejected request is reported as an error too.
\<close>

theorem handleGenerateImage_success_iff:
  "(FetchBook \<in> set (handleGenerateImage n (Resolved r))) = truthy (r_image_url r)
   \<and> ((\<exists>m. ToastSuccess m \<in> set (handleGenerateImage n (Resolved r))) = truthy (r_image_url r))
   \<and> ((\<exists>m. ToastError m \<in> set (handleGenerateImage n (Resolved r)))
        = (\<not> truthy (r_image_url r)))
   \<and> (ToastError (js ''No image could be generated'') \<in> set (handleGenerateImage n (Resolved r)))
        = (\<not> truthy (r_image_url r))
   \<and> \<not> truthy None \<and> \<not> truthy (Some []) \<and> truthy (Some (c # cs))
   \<and> FetchBook \<notin> set (handleGenerateImage n (Rejected e))
   \<and> (\<exists>m. ToastError m \<in> set (handleGenerateImage n (Rejected e)))
   \<and> \<not> (\<exists>m. ToastSuccess m \<in> set (handleGenerateImage n (Rejected e)))"
  by (simp add: handleGenerateImage_def truthy_def)

text \<open>
  C6, as the code has it. The interval of 5000 ms is installed if and only if the book is
  loaded and its status is \<open>writing\<close>. A tick clears it exactly when the polled progress
  reports a status other than \<open>writing\<close>, and then refetches the book once; a failed
  poll changes nothing. The interval also stops, without a refetch, when the cleanup of
  the effect runs.
\<close>

theorem detail_poll_behaviour:
  "detail_poll_installed bk = (\<exists>b. bk = Some b \<and> b_status b = js ''writing'')
   \<and> detail_poll_ms = 5000
   \<and> (ClearInterval \<in> set (detail_tick res))
        = (\<exists>p. res = Resolved p \<and> p_status p \<noteq> js ''writing'')
   \<and> detail_tick res
        = (if ClearInterval \<in> set (detail_tick res) then [ClearInterval, FetchBook] else [])
   \<and> (\<not> fst (detail_poll_step True inp))
        = (inp = Cleanup \<or> (\<exists>p. inp = Tick (Resolved p) \<and> p_status p \<noteq> js ''writing''))
   \<and> detail_poll_step True Cleanup = (False, [ClearInterval])
   \<and> detail_poll_step False inp = (False, [])"
proof -
  have tick: "(ClearInterval \<in> set (detail_tick res))
      = (\<exists>p. res = Resolved p \<and> p_status p \<noteq> js ''writing'')" for res
    by (cases res) (simp_all add: detail_tick_def)
  have shape: "detail_tick res
      = (if ClearInterval \<in> set (detail_tick res) then [ClearInterval, FetchBook] else [])"
    by (cases res) (simp_all add: detail_tick_def)
  have step: "(\<not> fst (detail_poll_step True inp))
      = (inp = Cleanup \<or> (\<exists>p. inp = Tick (Resolved p) \<and> p_status p \<noteq> js ''writing''))"
    by (cases inp) (simp_all add: tick)
  have inst: "detail_poll_installed bk = (\<exists>b. bk = Some b \<and> b_status b = js ''writing'')"
    by (cases bk) (simp_all add: detail_poll_installed_def)
  show ?thesis
    using tick [of res] shape step inst by (simp add: detail_poll_ms_def detail_cleanup_def)
qed

text \<open>
  C6, as stated, fails: the cleanup of the effect stops a running interval although no
  poll reported a status other than \<open>writing\<close>.
\<close>

theorem detail_poll_cleared_counterexample:
  "\<not> (\<forall>inp. (\<not> fst (detail_poll_step True inp))
         = (\<exists>p. inp = Tick (Resolved p) \<and> p_status p \<noteq> js ''writing''))"
proof
  assume "\<forall>inp. (\<not> fst (detail_poll_step True inp))
         = (\<exists>p. inp = Tick (Resolved p) \<and> p_status p \<noteq> js ''writing'')"
  then have "(\<not> fst (detail_poll_step True Cleanup))
         = (\<exists>p. Cleanup = Tick (Resolved p) \<and> p_status p \<noteq> js ''writing'')"
    by (rule spec)
  then show False by simp
qed

text \<open>
  C7. A tick of the creation flow clears the interval exactly on the statuses
  \<open>chapters_complete\<close> and \<open>error\<close>. On \<open>chapters_complete\<close> it announces
  success and navigates to the book; on \<open>error\<close> it shows the recorded error message
  (a default one when none is recorded); on every other status, and when the request
  fails, the interval of 5000 ms goes on with the next tick.
\<close>

theorem creator_poll_terminal:
  "(ClearInterval \<in> set (creator_tick l b (Resolved p)))
      = (p_status p = js ''chapters_complete'' \<or> p_status p = js ''error'')
   \<and> creator_tick l b (Rejected e) = []
   \<and> (p_status p = js ''chapters_complete'' \<longrightarrow>
        (\<exists>m. creator_tick l b (Resolved p)
           = [SetWritingProgress p, ClearInterval, ToastSuccess m, Navigate (js ''/book/'' @ b)])
        \<and> creator_poll l b (Resolved p # rs) = creator_tick l b (Resolved p))
   \<and> (p_status p = js ''error'' \<longrightarrow>
        creator_tick l b (Resolved p)
           = [SetWritingProgress p, ClearInterval,
              ToastError (or_else (p_error p) (js ''Error during generation''))]
        \<and> creator_poll l b (Resolved p # rs) = creator_tick l b (Resolved p))
   \<and> (m \<noteq> [] \<longrightarrow> or_else (Some m) d = m)
   \<and> (p_status p \<noteq> js ''chapters_complete'' \<and> p_status p \<noteq> js ''error'' \<longrightarrow>
        creator_poll l b (Resolved p # rs) = SetWritingProgress p # creator_poll l b rs)
   \<and> creator_poll l b (Rejected e # rs) = creator_poll l b rs
   \<and> creator_poll_ms = 5000"
proof -
  have ne: "js ''error'' \<noteq> js ''chapters_complete''"
    by (simp add: js_def)
  show ?thesis
    using ne by (auto simp add: creator_tick_def creator_poll_ms_def or_else_def truthy_def)
qed

theorem creator_poll_terminal_witness:
  "creator_poll (js ''en'') (js ''b1'')
     [Resolved \<lparr>p_status = js ''writing'', generated_chapters = 1, total_chapters = 2,
         p_error = None\<rparr>,
      Resolved \<lparr>p_status = js ''error'', generated_chapters = 1, total_chapters = 2,
         p_error = Some (js ''boom'')\<rparr>,
      Resolved \<lparr>p_status = js ''writing'', generated_chapters = 1, total_chapters = 2,
         p_error = None\<rparr>]
   = [SetWritingProgress \<lparr>p_status = js ''writing'', generated_chapters = 1,
         total_chapters = 2, p_error = None\<rparr>,
      SetWritingProgress \<lparr>p_status = js ''error'', generated_chapters = 1,
         total_chapters = 2, p_error = Some (js ''boom'')\<rparr>,
      ClearInterval, ToastError (js ''boom'')]
   \<and> (\<exists>m. creator_tick (js ''en'') (js ''b1'')
          (Resolved \<lparr>p_status = js ''chapters_complete'', generated_chapters = 2,
             total_chapters = 2, p_error = None\<rparr>)
        = [SetWritingProgress \<lparr>p_status = js ''chapters_complete'', generated_chapters = 2,
             total_chapters = 2, p_error = None\<rparr>,
           ClearInterval, ToastSuccess m, Navigate (js ''/book/b1'')])"
  using creator_poll_terminal [of "js ''en''" "js ''b1''"
      "\<lparr>p_status = js ''writing'', generated_chapters = 1, total_chapters = 2, p_error = None\<rparr>"
      undefined
      "[Resolved \<lparr>p_status = js ''error'', generated_chapters = 1, total_chapters = 2,
         p_error = Some (js ''boom'')\<rparr>,
        Resolved \<lparr>p_status = js ''writing'', generated_chapters = 1, total_chapters = 2,
         p_error = None\<rparr>]" "js ''boom''" "js ''Error during generation''"]
    creator_poll_terminal [of "js ''en''" "js ''b1''"
      "\<lparr>p_status = js ''error'', generated_chapters = 1, total_chapters = 2,
         p_error = Some (js ''boom'')\<rparr>"
      undefined
      "[Resolved \<lparr>p_status = js ''writing'', generated_chapters = 1, total_chapters = 2,
         p_error = None\<rparr>]" "js ''boom''" "js ''Error during generation''"]
    creator_poll_terminal [of "js ''en''" "js ''b1''"
      "\<lparr>p_status = js ''chapters_complete'', generated_chapters = 2, total_chapters = 2,
         p_error = None\<rparr>"
      undefined "[]" "js ''boom''" "js ''Error during generation''"]
  by (simp add: js_def creator_tick_def or_else_def truthy_def)

text \<open>
  C8. The name of the downloaded file is the title of the book with every maximal run of
  white space replaced by one underscore, followed by \<open>.\<close> and the format; no white
  space is left of the title.
\<close>

theorem export_filename_squash:
  "export_filename b f = squash (b_title b) @ js ''.'' @ f
   \<and> handleExport b f (Resolved data)
       = [SetExporting True, Download (squash (b_title b) @ js ''.'' @ f) data,
          ToastSuccess (js ''Exported as '' @ toUpperCase f @ js ''!''), SetExporting False]
   \<and> (\<forall>c\<in>set (squash (b_title b)). \<not> is_space c)"
  using squash_no_space [of _ "b_title b"]
  by (auto simp add: export_filename_def handleExport_def replace_all_def replace_spaces)

theorem export_filename_squash_witness:
  "export_filename \<lparr>b_title = js ''My  Book of Tea'', b_subtitle = None, b_language = js ''en'',
       b_status = js ''chapters_complete'', b_chapters = None, b_outline = None\<rparr> (js ''pdf'')
     = js ''My_Book_of_Tea.pdf''"
  using export_filename_squash [of "\<lparr>b_title = js ''My  Book of Tea'', b_subtitle = None,
       b_language = js ''en'', b_status = js ''chapters_complete'', b_chapters = None,
       b_outline = None\<rparr>" "js ''pdf''" "[]"]
  by (simp add: js_def is_space_def)

text \<open>
  C9. \<open>getImageSrc\<close> returns null when the URL is absent or empty, puts the backend base
  URL in front of a URL that starts with \<open>/api\<close>, and returns every other URL unchanged.
\<close>

theorem getImageSrc_cases:
  "getImageSrc base None = None
   \<and> getImageSrc base (Some []) = None
   \<and> (u \<noteq> [] \<and> startsWith u (js ''/api'') \<longrightarrow>
        getImageSrc base (Some u) = Some (template base @ u)
        \<and> getImageSrc (Some b) (Some u) = Some (b @ u))
   \<and> (u \<noteq> [] \<and> \<not> startsWith u (js ''/api'') \<longrightarrow>
        getImageSrc base (Some u) = Some u)"
  by (simp add: getImageSrc_def truthy_def template_def)

theorem getImageSrc_cases_witness:
  "getImageSrc (Some (js ''http://h'')) (Some (js ''/api/img/1'')) = Some (js ''http://h/api/img/1'')
   \<and> getImageSrc (Some (js ''http://h'')) (Some (js ''https://s.com/a.jpg''))
       = Some (js ''https://s.com/a.jpg'')"
  using getImageSrc_cases [of "Some (js ''http://h'')" "js ''/api/img/1''" "js ''http://h''"]
        getImageSrc_cases [of "Some (js ''http://h'')" "js ''https://s.com/a.jpg''" "[]"]
  by (simp add: js_def startsWith_def template_def)

text \<open>
  C10. The progress fraction never divides by zero: the denominator is
  \<open>max(total, 1)\<close>, which is at least 1, so the fraction is the finite number count over
  \<open>max(total, 1)\<close>. It is 0 when there are no chapters, whatever the outline; with an
  empty outline it is the count itself; 3 chapters of 6 give one half, and 50 on the bar of
  the creation flow. This holds for the book page and for the bar of the creation flow.
\<close>

theorem progress_total:
  "progress_denominator b = max (int (length (outline_of b))) 1
   \<and> progress b
       = Num (real (length (chapters_of b)) / real_of_int (max (int (length (outline_of b))) 1))
   \<and> 1 \<le> max (int (length (outline_of b))) 1
   \<and> 1 \<le> progress_denominator b
   \<and> progress_denominator \<lparr>b_title = t, b_subtitle = st, b_language = l, b_status = s,
        b_chapters = cs, b_outline = Some []\<rparr> = 1
   \<and> progress \<lparr>b_title = t, b_subtitle = st, b_language = l, b_status = s,
        b_chapters = cs, b_outline = Some []\<rparr>
       = Num (real (length (case cs of None \<Rightarrow> [] | Some xs \<Rightarrow> xs)))
   \<and> progress \<lparr>b_title = t, b_subtitle = st, b_language = l, b_status = s,
        b_chapters = Some [], b_outline = os\<rparr> = Num 0
   \<and> progress \<lparr>b_title = t, b_subtitle = st, b_language = l, b_status = s,
        b_chapters = Some [c1, c2, c3], b_outline = Some [o1, o2, o3, o4, o5, o6]\<rparr>
       = Num (1 / 2)
   \<and> writing_denominator wp = max (total_chapters wp) 1
   \<and> writing_fraction wp
       = Num (real_of_int (generated_chapters wp) / real_of_int (max (total_chapters wp) 1))
   \<and> 1 \<le> max (total_chapters wp) 1
   \<and> 1 \<le> writing_denominator wp
   \<and> writing_fraction (wp\<lparr>generated_chapters := 0\<rparr>) = Num 0
   \<and> writing_fraction (wp\<lparr>generated_chapters := 3, total_chapters := 6\<rparr>) = Num (1 / 2)
   \<and> writing_fraction (wp\<lparr>generated_chapters := 3, total_chapters := 0\<rparr>) = Num 3
   \<and> writing_bar_value (wp\<lparr>generated_chapters := 3, total_chapters := 6\<rparr>) = Num 50"
proof -
  have d: "progress_denominator b = max (int (length (outline_of b))) 1"
    by (simp add: progress_denominator_def)
  have d1: "1 \<le> progress_denominator b"
    by (simp add: progress_denominator_def)
  have d0: "progress_denominator \<lparr>b_title = t, b_subtitle = st, b_language = l, b_status = s,
        b_chapters = cs, b_outline = Some []\<rparr> = 1"
    by (simp add: progress_denominator_def outline_of_def)
  have w1: "1 \<le> writing_denominator wp"
    by (simp add: writing_denominator_def)
  have p: "progress b
      = Num (real (length (chapters_of b)) / real_of_int (max (int (length (outline_of b))) 1))"
    by (auto simp add: progress_def progress_denominator_def js_div_def max_def)
  have e: "progress \<lparr>b_title = t, b_subtitle = st, b_language = l, b_status = s,
        b_chapters = cs, b_outline = Some []\<rparr>
       = Num (real (length (case cs of None \<Rightarrow> [] | Some xs \<Rightarrow> xs)))"
    by (simp add: progress_def progress_denominator_def js_div_def chapters_of_def outline_of_def)
  have z: "progress \<lparr>b_title = t, b_subtitle = st, b_language = l, b_status = s,
        b_chapters = Some [], b_outline = os\<rparr> = Num 0"
    by (auto simp add: progress_def progress_denominator_def js_div_def chapters_of_def max_def)
  have h: "progress \<lparr>b_title = t, b_subtitle = st, b_language = l, b_status = s,
        b_chapters = Some [c1, c2, c3], b_outline = Some [o1, o2, o3, o4, o5, o6]\<rparr>
       = Num (1 / 2)"
    by (simp add: progress_def progress_denominator_def js_div_def chapters_of_def outline_of_def)
  have wd: "writing_denominator wp = max (total_chapters wp) 1"
    by (simp add: writing_denominator_def)
  have wf: "writing_fraction wp
       = Num (real_of_int (generated_chapters wp) / real_of_int (max (total_chapters wp) 1))"
    by (auto simp add: writing_fraction_def writing_denominator_def js_div_def max_def)
  have wz: "writing_fraction (wp\<lparr>generated_chapters := 0\<rparr>) = Num 0"
    by (auto simp add: writing_fraction_def writing_denominator_def js_div_def max_def)
  have wh: "writing_fraction (wp\<lparr>generated_chapters := 3, total_chapters := 6\<rparr>) = Num (1 / 2)"
    by (simp add: writing_fraction_def writing_denominator_def js_div_def)
  have we: "writing_fraction (wp\<lparr>generated_chapters := 3, total_chapters := 0\<rparr>) = Num 3"
    by (simp add: writing_fraction_def writing_denominator_def js_div_def)
  have wb: "writing_bar_value (wp\<lparr>generated_chapters := 3, total_chapters := 6\<rparr>) = Num 50"
    by (simp add: writing_bar_value_def js_times_def writing_fraction_def
          writing_denominator_def js_div_def)
  show ?thesis using d d1 d0 w1 p e z h wd wf wz wh we wb by simp
qed

end
